theory Spec2Isabelle
  imports Main
begin

section \<open>Wall-clock time\<close>

text \<open>
  \<^verbatim>\<open>time.Time\<close> is taken as the wall-clock instant in nanoseconds since the Unix epoch,
  \<^verbatim>\<open>time.Duration\<close> as a number of nanoseconds. \<^verbatim>\<open>Time.UnixMilli\<close> is
  \<^verbatim>\<open>unixSec * 1000 + nsec / 1e6\<close> with \<open>0 \<le> nsec < 1e9\<close>, the floor of the
  nanosecond count divided by \<open>10^6\<close>. For a reading of \<^verbatim>\<open>time.Now()\<close> moved by
  any 64-bit duration the millisecond count fits 64 bits, so unbounded integers are exact.
\<close>

type_synonym Time = int
type_synonym Duration = int

definition UnixMilli :: "Time \<Rightarrow> int" where
  "UnixMilli t = t div 1000000"

definition Add :: "Time \<Rightarrow> Duration \<Rightarrow> Time" where
  "Add t d = t + d"

section \<open>The LRU core (\<^verbatim>\<open>simplelru.LRU\<close>)\<close>

text \<open>
  Modelled from the spec: package \<^verbatim>\<open>simplelru\<close> is imported by
  \<^verbatim>\<open>lru_inertia.go\<close> and its source is not part of the repository. The record and
  the four operations below follow section 4.2 of the specification: a bounded
  recency-ordered mapping, most recently used entry first; \<open>Get\<close> promotes; \<open>Add\<close>
  inserts or replaces and, when the insertion grows the mapping beyond its capacity,
  evicts the least recently used entry and invokes the eviction callback once with it;
  \<open>Remove\<close> removes and invokes no callback; construction with a capacity \<open>\<le> 0\<close>
  fails. An operation returns, next to its result, the list of arguments of the calls
  of the callback it made (the callback being \<open>nil\<close>: none).
\<close>

record ('k, 'a) LRU =
  lru_size :: nat
  evictList :: "('k \<times> 'a) list"
  onEvict :: bool

definition NewLRU :: "int \<Rightarrow> bool \<Rightarrow> string + ('k, 'a) LRU" where
  "NewLRU sz cb =
     (if sz \<le> 0 then Inl ''must provide a positive size''
      else Inr \<lparr>lru_size = nat sz, evictList = [], onEvict = cb\<rparr>)"

definition lru_Get :: "'k \<Rightarrow> ('k, 'a) LRU \<Rightarrow> 'a option \<times> ('k, 'a) LRU" where
  "lru_Get key c =
     (case map_of (evictList c) key of
        None \<Rightarrow> (None, c)
      | Some v \<Rightarrow>
          (Some v, c\<lparr>evictList := (key, v) # filter (\<lambda>p. fst p \<noteq> key) (evictList c)\<rparr>))"

definition lru_Add :: "'k \<Rightarrow> 'a \<Rightarrow> ('k, 'a) LRU \<Rightarrow> ('k, 'a) LRU \<times> ('k \<times> 'a) list" where
  "lru_Add key v c =
     (let l = (key, v) # filter (\<lambda>p. fst p \<noteq> key) (evictList c) in
      if map_of (evictList c) key = None \<and> lru_size c < length l
      then (c\<lparr>evictList := butlast l\<rparr>, if onEvict c then [last l] else [])
      else (c\<lparr>evictList := l\<rparr>, []))"

definition lru_Remove :: "'k \<Rightarrow> ('k, 'a) LRU \<Rightarrow> bool \<times> ('k, 'a) LRU \<times> ('k \<times> 'a) list" where
  "lru_Remove key c =
     (map_of (evictList c) key \<noteq> None,
      c\<lparr>evictList := filter (\<lambda>p. fst p \<noteq> key) (evictList c)\<rparr>,
      [])"

section \<open>The cache (\<^verbatim>\<open>lru_inertia.go\<close>)\<close>

text \<open>
  \<^verbatim>\<open>inertiaLruItem[V]\<close>: the mutex is a flag (held or not), \<^verbatim>\<open>err\<close> is
  \<open>None\<close> for \<^verbatim>\<open>nil\<close>, and the zero value of \<open>V\<close> is \<open>0\<close>. The field
  \<^verbatim>\<open>value\<close> is named \<open>val\<close>.
\<close>

record ('v, 'e) inertiaLruItem =
  lock :: bool
  expires :: int
  err :: "'e option"
  val :: 'v

definition new_item :: "('v::zero, 'e) inertiaLruItem" where
  "new_item = \<lparr>lock = False, expires = 0, err = None, val = 0\<rparr>"

text \<open>\<^verbatim>\<open>Target\<close>: the metrics sink, as the number of calls of each of its methods.\<close>

record Target =
  getHit :: nat
  getSuccess :: nat
  getFailed :: nat

definition IncrGetHit :: "Target \<Rightarrow> Target" where
  "IncrGetHit t = t\<lparr>getHit := Suc (getHit t)\<rparr>"

definition IncrGetSuccess :: "Target \<Rightarrow> Target" where
  "IncrGetSuccess t = t\<lparr>getSuccess := Suc (getSuccess t)\<rparr>"

definition IncrGetFailed :: "Target \<Rightarrow> Target" where
  "IncrGetFailed t = t\<lparr>getFailed := Suc (getFailed t)\<rparr>"

text \<open>
  \<^verbatim>\<open>InertiaLRU[K, V]\<close> with its five fields (the mutex \<^verbatim>\<open>lock\<close> is
  \<open>xlock\<close>; the core maps a key to the address of its item), extended by what the
  program's run touches outside the struct: the items by address, the next unused
  address, the arguments of the calls of the user's \<^verbatim>\<open>onEvict\<close> so far (oldest
  first) and the number of calls of a \<^verbatim>\<open>fetch\<close> function so far.
\<close>

record ('k, 'v, 'e) InertiaLRU =
  xlock :: bool
  core :: "('k, nat) LRU"
  successTTL :: Duration
  failedTTL :: Duration
  target :: Target

record ('k, 'v, 'e) state = "('k, 'v, 'e) InertiaLRU" +
  heap :: "nat \<Rightarrow> ('v, 'e) inertiaLruItem"
  fresh :: nat
  evictions :: "('k \<times> 'v) list"
  fetched :: nat

text \<open>
  \<^verbatim>\<open>NewInertiaLRU\<close>: the callback handed to the core is non-nil exactly when
  \<^verbatim>\<open>onEvict\<close> is; an error of \<^verbatim>\<open>simplelru.NewLRU\<close> is a panic (\<open>Inl\<close>).
\<close>

definition NewInertiaLRU ::
  "int \<Rightarrow> Duration \<Rightarrow> Duration \<Rightarrow> Target \<Rightarrow> bool \<Rightarrow> string + ('k, 'v::zero, 'e) state" where
  "NewInertiaLRU sz sTTL fTTL tgt onEv =
     (case NewLRU sz onEv of
        Inl e \<Rightarrow> Inl e
      | Inr c \<Rightarrow>
          Inr \<lparr>xlock = False, core = c, successTTL = sTTL, failedTTL = fTTL, target = tgt,
               heap = (\<lambda>_. new_item), fresh = 0, evictions = [], fetched = 0\<rparr>)"

text \<open>
  The callback \<^verbatim>\<open>cb\<close> of \<^verbatim>\<open>NewInertiaLRU\<close>: each call the core makes with
  \<open>(key, item)\<close> calls \<^verbatim>\<open>onEvict(key, item.value)\<close>.
\<close>

definition cb :: "('k \<times> nat) list \<Rightarrow> ('k, 'v, 'e, 'z) state_scheme \<Rightarrow> ('k, 'v, 'e, 'z) state_scheme" where
  "cb calls s = s\<lparr>evictions := evictions s @ map (\<lambda>(k, a). (k, val (heap s a))) calls\<rparr>"

definition set_lock :: "nat \<Rightarrow> bool \<Rightarrow> ('k, 'v, 'e, 'z) state_scheme \<Rightarrow> ('k, 'v, 'e, 'z) state_scheme" where
  "set_lock v b s = s\<lparr>heap := (heap s)(v := (heap s v)\<lparr>lock := b\<rparr>)\<rparr>"

text \<open>
  Lines 61 to 73 of \<^verbatim>\<open>Get\<close>, entered with the mutex of item \<open>v\<close> held; the
  deferred \<^verbatim>\<open>Unlock\<close> runs at either return. \<open>fetch\<close> is the pair the caller's
  function returns when it is called, \<open>t62\<close> and \<open>t67\<close> are the readings of
  \<^verbatim>\<open>time.Now()\<close> at line 62 and at line 67 or 70.
\<close>

definition Get_locked ::
  "nat \<Rightarrow> 'v \<times> 'e option \<Rightarrow> Time \<Rightarrow> Time \<Rightarrow> ('k, 'v, 'e, 'z) state_scheme
     \<Rightarrow> ('v \<times> 'e option) \<times> ('k, 'v, 'e, 'z) state_scheme" where
  "Get_locked v fetch t62 t67 s =
     (if UnixMilli t62 < expires (heap s v)
      then ((val (heap s v), err (heap s v)), set_lock v False s)
      else
        let s1 = s\<lparr>heap := (heap s)(v := (heap s v)\<lparr>err := snd fetch, val := fst fetch\<rparr>),
                   fetched := Suc (fetched s)\<rparr>;
            s2 = (if err (heap s1 v) = None
                  then s1\<lparr>heap := (heap s1)(v := (heap s1 v)
                              \<lparr>expires := UnixMilli (Add t67 (successTTL s1))\<rparr>),
                          target := IncrGetSuccess (target s1)\<rparr>
                  else s1\<lparr>heap := (heap s1)(v := (heap s1 v)
                              \<lparr>expires := UnixMilli (Add t67 (failedTTL s1))\<rparr>),
                          target := IncrGetFailed (target s1)\<rparr>)
        in ((val (heap s2 v), err (heap s2 v)), set_lock v False s2))"

text \<open>
  \<^verbatim>\<open>Get\<close>, run by one caller with no other caller active. \<open>t50\<close> is the reading of
  \<^verbatim>\<open>time.Now()\<close> at line 50. \<open>None\<close>: the call blocks on a mutex that is held.
\<close>

definition Get ::
  "'k \<Rightarrow> 'v \<times> 'e option \<Rightarrow> Time \<Rightarrow> Time \<Rightarrow> Time \<Rightarrow> ('k, 'v::zero, 'e, 'z) state_scheme
     \<Rightarrow> (('v \<times> 'e option) \<times> ('k, 'v, 'e, 'z) state_scheme) option" where
  "Get key fetch t50 t62 t67 s =
     (if xlock s then None
      else
        case lru_Get key (core s) of
          (Some v, c) \<Rightarrow>
            if lock (heap s v) then None
            else
              let s1 = set_lock v True (s\<lparr>core := c\<rparr>);
                  e = expires (heap s1 v);
                  value = val (heap s1 v);
                  er = err (heap s1 v)
              in if e \<noteq> 0 \<and> UnixMilli t50 < e
                 then Some ((value, er),
                            (set_lock v False s1)\<lparr>target := IncrGetHit (target s1)\<rparr>)
                 else Some (Get_locked v fetch t62 t67 s1)
        | (None, c) \<Rightarrow>
            let v = fresh s;
                s1 = s\<lparr>heap := (heap s)(v := new_item), fresh := Suc v\<rparr>;
                (c', calls) = lru_Add key v c;
                s2 = cb calls (s1\<lparr>core := c'\<rparr>);
                s3 = set_lock v True s2
            in Some (Get_locked v fetch t62 t67 s3))"

text \<open>\<^verbatim>\<open>Del\<close>: \<open>None\<close> when the call blocks on the cache mutex.\<close>

definition Del :: "'k \<Rightarrow> ('k, 'v, 'e, 'z) state_scheme \<Rightarrow> (bool \<times> ('k, 'v, 'e, 'z) state_scheme) option" where
  "Del key s =
     (if xlock s then None
      else
        let (ok, c, calls) = lru_Remove key (core s)
        in Some (ok, cb calls (s\<lparr>core := c\<rparr>)))"

definition Stop :: "('k, 'v, 'e, 'z) state_scheme \<Rightarrow> ('k, 'v, 'e, 'z) state_scheme" where
  "Stop s = s"

text \<open>
  The keys of the core, its lookup without promotion, and the invariant of the states
  the program builds: the capacity is positive, the core holds no more entries than its
  capacity, no key and no item occurs twice in it, and every item it holds was
  allocated.
\<close>

definition keys :: "('k, 'v, 'e, 'z) state_scheme \<Rightarrow> 'k list" where
  "keys s = map fst (evictList (core s))"

definition item_of :: "('k, 'v, 'e, 'z) state_scheme \<Rightarrow> 'k \<Rightarrow> nat option" where
  "item_of s key = map_of (evictList (core s)) key"

definition wf_cache :: "('k, 'v, 'e, 'z) state_scheme \<Rightarrow> bool" where
  "wf_cache s \<longleftrightarrow>
     0 < lru_size (core s) \<and>
     length (evictList (core s)) \<le> lru_size (core s) \<and>
     distinct (map fst (evictList (core s))) \<and>
     distinct (map snd (evictList (core s))) \<and>
     list_all (\<lambda>p. snd p < fresh s) (evictList (core s))"

text \<open>
  A sequence of calls by one caller, each returning before the next starts, with the
  results of the calls in order.
\<close>

datatype ('k, 'v, 'e) call =
    CallGet 'k "'v \<times> 'e option" Time Time Time
  | CallDel 'k

datatype ('v, 'e) result =
    GetResult 'v "'e option"
  | DelResult bool

fun run ::
  "('k, 'v::zero, 'e) call list \<Rightarrow> ('k, 'v, 'e, 'z) state_scheme
     \<Rightarrow> (('v, 'e) result list \<times> ('k, 'v, 'e, 'z) state_scheme) option" where
  "run [] s = Some ([], s)"
| "run (CallGet key fetch t50 t62 t67 # cs) s =
     (case Get key fetch t50 t62 t67 s of
        None \<Rightarrow> None
      | Some (r, s') \<Rightarrow>
          (case run cs s' of
             None \<Rightarrow> None
           | Some (rs, s'') \<Rightarrow> Some (GetResult (fst r) (snd r) # rs, s'')))"
| "run (CallDel key # cs) s =
     (case Del key s of
        None \<Rightarrow> None
      | Some (ok, s') \<Rightarrow>
          (case run cs s' of
             None \<Rightarrow> None
           | Some (rs, s'') \<Rightarrow> Some (DelResult ok # rs, s'')))"

text \<open>
  The cache of the specification's concrete scenarios: \<^verbatim>\<open>NewInertiaLRU\<close> called with
  capacity \<open>n\<close>, a success TTL of 100 ms, a failure TTL of 10 ms, a sink that has counted
  nothing and an eviction callback; keys are strings, values integers.
\<close>

definition ms :: "int \<Rightarrow> Time" where
  "ms n = n * 1000000"

definition scenario :: "nat \<Rightarrow> (string, int, string) state" where
  "scenario n =
     \<lparr>xlock = False, core = \<lparr>lru_size = n, evictList = [], onEvict = True\<rparr>,
      successTTL = ms 100, failedTTL = ms 10,
      target = \<lparr>getHit = 0, getSuccess = 0, getFailed = 0\<rparr>,
      heap = (\<lambda>_. new_item), fresh = 0, evictions = [], fetched = 0\<rparr>"

definition after :: "('k, 'v::zero, 'e) call list \<Rightarrow> ('k, 'v, 'e, 'z) state_scheme \<Rightarrow> ('k, 'v, 'e, 'z) state_scheme" where
  "after cs s = (case run cs s of None \<Rightarrow> s | Some (rs, s') \<Rightarrow> s')"

section \<open>Concurrent callers\<close>

text \<open>
  Several goroutines call \<^verbatim>\<open>Get\<close> and \<^verbatim>\<open>Del\<close> on one cache. A goroutine is at
  a point of the source, named by the line it is about to run, with its local variables:
  \<open>L47 v\<close> is before line 47 with the item address \<open>v\<close>; \<open>L50 v e va er\<close> is before
  the test of line 50 with the snapshot \<open>e, va, er\<close> of line 49; \<open>Fetching v\<close> is inside
  the call of \<open>fetch\<close> of line 65; \<open>L62\<close> stands after the \<^verbatim>\<open>defer\<close> of line 61;
  the returns of lines 63 and 73 read \<^verbatim>\<open>v.value, v.err\<close> and run the deferred
  \<^verbatim>\<open>Unlock\<close>. \<open>Returned\<close> and \<open>Deleted\<close> hold what the call returned.
\<close>

datatype ('k, 'v, 'e) pc =
    Idle
  | L44 'k
  | L45 'k
  | L47 nat
  | L48 nat
  | L49 nat
  | L50 nat int 'v "'e option"
  | L51 nat 'v "'e option"
  | L52 'v "'e option"
  | L53 'v "'e option"
  | L56 'k
  | L57 'k nat
  | L58 nat
  | L59 nat
  | L62 nat
  | L63 nat
  | L65 nat
  | Fetching nat
  | L66 nat
  | L67 nat
  | L68 nat
  | L70 nat
  | L71 nat
  | L73 nat
  | Returned 'v "'e option"
  | L77 'k
  | L78 'k
  | L79 bool
  | L80 bool
  | Deleted bool

text \<open>
  The whole system: the cache and the heap, the point each goroutine is at, the wall
  clock, and for each goroutine the calls of the sink's methods and of \<open>fetch\<close> made
  by its current call of \<^verbatim>\<open>Get\<close>.
\<close>

record ('k, 'v, 'e) system = "('k, 'v, 'e) state" +
  pcs :: "nat \<Rightarrow> ('k, 'v, 'e) pc"
  clock :: Time
  tally :: "nat \<Rightarrow> Target"
  fetches :: "nat \<Rightarrow> nat"

definition no_calls :: Target where
  "no_calls = \<lparr>getHit = 0, getSuccess = 0, getFailed = 0\<rparr>"

definition calls_of :: "Target \<Rightarrow> nat" where
  "calls_of c = getHit c + getSuccess c + getFailed c"

definition at :: "nat \<Rightarrow> ('k, 'v, 'e) pc \<Rightarrow> ('k, 'v, 'e) system \<Rightarrow> ('k, 'v, 'e) system" where
  "at t p s = s\<lparr>pcs := (pcs s)(t := p)\<rparr>"

definition sink :: "nat \<Rightarrow> (Target \<Rightarrow> Target) \<Rightarrow> ('k, 'v, 'e) system \<Rightarrow> ('k, 'v, 'e) system" where
  "sink t f s = s\<lparr>target := f (target s), tally := (tally s)(t := f (tally s t))\<rparr>"

fun idle :: "('k, 'v, 'e) pc \<Rightarrow> bool" where
  "idle Idle = True"
| "idle (Returned va er) = True"
| "idle (Deleted ok) = True"
| "idle p = False"

text \<open>
  One step of goroutine \<open>t\<close> from the point it is at; \<open>None\<close> when it cannot move:
  \<^verbatim>\<open>Lock\<close> on a mutex that is held, a call of \<open>fetch\<close> that has not returned, no
  call in progress. A mutex is taken and released in one step; the clock is read where
  the source calls \<^verbatim>\<open>time.Now()\<close>.
\<close>

fun next_step ::
  "nat \<Rightarrow> ('k, 'v::zero, 'e) pc \<Rightarrow> ('k, 'v, 'e) system \<Rightarrow> ('k, 'v, 'e) system option" where
  "next_step t Idle s = None"
| "next_step t (L44 key) s =
     (if xlock s then None else Some (at t (L45 key) (s\<lparr>xlock := True\<rparr>)))"
| "next_step t (L45 key) s =
     (case lru_Get key (core s) of
        (Some v, c) \<Rightarrow> Some (at t (L47 v) (s\<lparr>core := c\<rparr>))
      | (None, c) \<Rightarrow> Some (at t (L56 key) (s\<lparr>core := c\<rparr>)))"
| "next_step t (L47 v) s = Some (at t (L48 v) (s\<lparr>xlock := False\<rparr>))"
| "next_step t (L48 v) s =
     (if lock (heap s v) then None else Some (at t (L49 v) (set_lock v True s)))"
| "next_step t (L49 v) s =
     Some (at t (L50 v (expires (heap s v)) (val (heap s v)) (err (heap s v))) s)"
| "next_step t (L50 v e va er) s =
     (if e \<noteq> 0 \<and> UnixMilli (clock s) < e then Some (at t (L51 v va er) s)
      else Some (at t (L62 v) s))"
| "next_step t (L51 v va er) s = Some (at t (L52 va er) (set_lock v False s))"
| "next_step t (L52 va er) s = Some (at t (L53 va er) (sink t IncrGetHit s))"
| "next_step t (L53 va er) s = Some (at t (Returned va er) s)"
| "next_step t (L56 key) s =
     Some (at t (L57 key (fresh s))
             (s\<lparr>heap := (heap s)(fresh s := new_item), fresh := Suc (fresh s)\<rparr>))"
| "next_step t (L57 key v) s =
     (let (c, calls) = lru_Add key v (core s)
      in Some (at t (L58 v) (cb calls (s\<lparr>core := c\<rparr>))))"
| "next_step t (L58 v) s =
     (if lock (heap s v) then None else Some (at t (L59 v) (set_lock v True s)))"
| "next_step t (L59 v) s = Some (at t (L62 v) (s\<lparr>xlock := False\<rparr>))"
| "next_step t (L62 v) s =
     (if UnixMilli (clock s) < expires (heap s v) then Some (at t (L63 v) s)
      else Some (at t (L65 v) s))"
| "next_step t (L63 v) s =
     Some (at t (Returned (val (heap s v)) (err (heap s v))) (set_lock v False s))"
| "next_step t (L65 v) s =
     Some (at t (Fetching v)
             (s\<lparr>fetched := Suc (fetched s), fetches := (fetches s)(t := Suc (fetches s t))\<rparr>))"
| "next_step t (Fetching v) s = None"
| "next_step t (L66 v) s =
     (if err (heap s v) = None then Some (at t (L67 v) s) else Some (at t (L70 v) s))"
| "next_step t (L67 v) s =
     Some (at t (L68 v)
             (s\<lparr>heap := (heap s)(v := (heap s v)
                     \<lparr>expires := UnixMilli (Add (clock s) (successTTL s))\<rparr>)\<rparr>))"
| "next_step t (L68 v) s = Some (at t (L73 v) (sink t IncrGetSuccess s))"
| "next_step t (L70 v) s =
     Some (at t (L71 v)
             (s\<lparr>heap := (heap s)(v := (heap s v)
                     \<lparr>expires := UnixMilli (Add (clock s) (failedTTL s))\<rparr>)\<rparr>))"
| "next_step t (L71 v) s = Some (at t (L73 v) (sink t IncrGetFailed s))"
| "next_step t (L73 v) s =
     Some (at t (Returned (val (heap s v)) (err (heap s v))) (set_lock v False s))"
| "next_step t (Returned va er) s = None"
| "next_step t (L77 key) s =
     (if xlock s then None else Some (at t (L78 key) (s\<lparr>xlock := True\<rparr>)))"
| "next_step t (L78 key) s =
     (let (ok, c, calls) = lru_Remove key (core s)
      in Some (at t (L79 ok) (cb calls (s\<lparr>core := c\<rparr>))))"
| "next_step t (L79 ok) s = Some (at t (L80 ok) (s\<lparr>xlock := False\<rparr>))"
| "next_step t (L80 ok) s = Some (at t (Deleted ok) s)"
| "next_step t (Deleted ok) s = None"

text \<open>
  What happens next is chosen from outside: a goroutine with no call in progress calls
  \<^verbatim>\<open>Get\<close> or \<^verbatim>\<open>Del\<close>; a goroutine takes its next step; the \<open>fetch\<close> a
  goroutine is in returns a pair, which line 65 assigns to the item; the wall clock
  that \<^verbatim>\<open>time.Now()\<close> reads moves by some nanoseconds, forward or, when it is set
  back, backward.
\<close>

datatype ('k, 'v, 'e) action =
    InvGet nat 'k
  | InvDel nat 'k
  | Step nat
  | Ret nat 'v "'e option"
  | Tick int

fun step ::
  "('k, 'v::zero, 'e) action \<Rightarrow> ('k, 'v, 'e) system \<Rightarrow> ('k, 'v, 'e) system option" where
  "step (InvGet t key) s =
     (if idle (pcs s t)
      then Some (at t (L44 key) (s\<lparr>tally := (tally s)(t := no_calls),
                                     fetches := (fetches s)(t := 0)\<rparr>))
      else None)"
| "step (InvDel t key) s = (if idle (pcs s t) then Some (at t (L77 key) s) else None)"
| "step (Step t) s = next_step t (pcs s t) s"
| "step (Ret t va er) s =
     (case pcs s t of
        Fetching v \<Rightarrow>
          Some (at t (L66 v) (s\<lparr>heap := (heap s)(v := (heap s v)\<lparr>err := er, val := va\<rparr>)\<rparr>))
      | _ \<Rightarrow> None)"
| "step (Tick d) s = Some (s\<lparr>clock := clock s + d\<rparr>)"

fun exec ::
  "('k, 'v::zero, 'e) action list \<Rightarrow> ('k, 'v, 'e) system \<Rightarrow> ('k, 'v, 'e) system option" where
  "exec [] s = Some s"
| "exec (a # as) s = (case step a s of None \<Rightarrow> None | Some s' \<Rightarrow> exec as s')"

text \<open>
  The actions in which the clock is not set back.
\<close>

fun forward :: "('k, 'v, 'e) action \<Rightarrow> bool" where
  "forward (Tick d) = (0 \<le> d)"
| "forward a = True"

text \<open>
  What a goroutine has at a point: the item whose mutex it holds, whether it holds the
  cache mutex, the item its variable \<^verbatim>\<open>v\<close> points to, the item it has allocated while
  it still holds the cache mutex, and the calls of the sink's methods \<open>c\<close> and the
  number of calls of \<open>fetch\<close> \<open>f\<close> its call of \<^verbatim>\<open>Get\<close> has made when it is at that
  point.
\<close>

fun holds :: "('k, 'v, 'e) pc \<Rightarrow> nat option" where
  "holds (L49 v) = Some v"
| "holds (L50 v e va er) = Some v"
| "holds (L51 v va er) = Some v"
| "holds (L59 v) = Some v"
| "holds (L62 v) = Some v"
| "holds (L63 v) = Some v"
| "holds (L65 v) = Some v"
| "holds (Fetching v) = Some v"
| "holds (L66 v) = Some v"
| "holds (L67 v) = Some v"
| "holds (L68 v) = Some v"
| "holds (L70 v) = Some v"
| "holds (L71 v) = Some v"
| "holds (L73 v) = Some v"
| "holds p = None"

fun holds_x :: "('k, 'v, 'e) pc \<Rightarrow> bool" where
  "holds_x (L45 key) = True"
| "holds_x (L47 v) = True"
| "holds_x (L56 key) = True"
| "holds_x (L57 key v) = True"
| "holds_x (L58 v) = True"
| "holds_x (L59 v) = True"
| "holds_x (L78 key) = True"
| "holds_x (L79 ok) = True"
| "holds_x p = False"

fun refs :: "('k, 'v, 'e) pc \<Rightarrow> nat option" where
  "refs (L47 v) = Some v"
| "refs (L48 v) = Some v"
| "refs (L57 key v) = Some v"
| "refs (L58 v) = Some v"
| "refs p = holds p"

fun creating :: "('k, 'v, 'e) pc \<Rightarrow> nat option" where
  "creating (L57 key v) = Some v"
| "creating (L58 v) = Some v"
| "creating (L59 v) = Some v"
| "creating p = None"

fun accounted :: "('k, 'v, 'e) pc \<Rightarrow> Target \<Rightarrow> nat \<Rightarrow> bool" where
  "accounted Idle c f = True"
| "accounted (L77 key) c f = True"
| "accounted (L78 key) c f = True"
| "accounted (L79 ok) c f = True"
| "accounted (L80 ok) c f = True"
| "accounted (Deleted ok) c f = True"
| "accounted (L53 va er) c f = (c = IncrGetHit no_calls \<and> f = 0)"
| "accounted (Fetching v) c f = (c = no_calls \<and> f = 1)"
| "accounted (L66 v) c f = (c = no_calls \<and> f = 1)"
| "accounted (L67 v) c f = (c = no_calls \<and> f = 1)"
| "accounted (L68 v) c f = (c = no_calls \<and> f = 1)"
| "accounted (L70 v) c f = (c = no_calls \<and> f = 1)"
| "accounted (L71 v) c f = (c = no_calls \<and> f = 1)"
| "accounted (L73 v) c f =
     ((c = IncrGetSuccess no_calls \<or> c = IncrGetFailed no_calls) \<and> f = 1)"
| "accounted (Returned va er) c f =
     (c = IncrGetHit no_calls \<and> f = 0 \<or>
      (c = IncrGetSuccess no_calls \<or> c = IncrGetFailed no_calls) \<and> f = 1)"
| "accounted p c f = (c = no_calls \<and> f = 0)"

text \<open>
  The states of a running system. Allocation and the two mutexes: the clock is after
  the epoch; the items in the core and in the goroutines' variables are allocated; a
  goroutine that holds a mutex finds it held, and no two goroutines hold the same one.
\<close>

definition inv_locks :: "('k, 'v, 'e) system \<Rightarrow> bool" where
  "inv_locks s \<longleftrightarrow>
     0 \<le> clock s \<and>
     list_all (\<lambda>p. snd p < fresh s) (evictList (core s)) \<and>
     (\<forall>t v. refs (pcs s t) = Some v \<longrightarrow> v < fresh s) \<and>
     (\<forall>t. holds_x (pcs s t) \<longrightarrow> xlock s) \<and>
     (\<forall>t t'. holds_x (pcs s t) \<and> holds_x (pcs s t') \<longrightarrow> t = t') \<and>
     (\<forall>t v. holds (pcs s t) = Some v \<longrightarrow> lock (heap s v)) \<and>
     (\<forall>t t' v. holds (pcs s t) = Some v \<and> holds (pcs s t') = Some v \<longrightarrow> t = t')"

text \<open>
  What a goroutine knows of the item it works on: the snapshot of line 49 is still what
  the item holds; an item allocated at line 56 has \<open>expires = 0\<close> as long as its creator
  holds the cache mutex; before the test of line 62 the item has \<open>expires = 0\<close> or an
  \<open>expires\<close> that is not after the clock. And no other goroutine points to an item
  whose creator still holds the cache mutex.
\<close>

fun knows :: "('k, 'v, 'e) pc \<Rightarrow> ('k, 'v, 'e) system \<Rightarrow> bool" where
  "knows (L50 v e va er) s =
     (expires (heap s v) = e \<and> val (heap s v) = va \<and> err (heap s v) = er)"
| "knows (L57 key v) s = (expires (heap s v) = 0)"
| "knows (L58 v) s = (expires (heap s v) = 0)"
| "knows (L59 v) s = (expires (heap s v) = 0)"
| "knows (L62 v) s = (expires (heap s v) = 0 \<or> expires (heap s v) \<le> UnixMilli (clock s))"
| "knows p s = True"

definition inv_items :: "('k, 'v, 'e) system \<Rightarrow> bool" where
  "inv_items s \<longleftrightarrow>
     (\<forall>t. knows (pcs s t) s) \<and>
     (\<forall>t t' v. creating (pcs s t) = Some v \<and> refs (pcs s t') = Some v \<longrightarrow> t' = t)"

text \<open>
  No goroutine is at line 63, and the calls a call of \<^verbatim>\<open>Get\<close> has made are those its
  point tells.
\<close>

definition inv_count :: "('k, 'v, 'e) system \<Rightarrow> bool" where
  "inv_count s \<longleftrightarrow>
     (\<forall>t v. pcs s t \<noteq> L63 v) \<and>
     (\<forall>t. accounted (pcs s t) (tally s t) (fetches s t))"

definition inv_sys :: "('k, 'v, 'e) system \<Rightarrow> bool" where
  "inv_sys s \<longleftrightarrow> inv_locks s \<and> inv_items s \<and> inv_count s"

text \<open>
  A system in which no goroutine has a call in progress: the items in the core are
  allocated.
\<close>

definition idle_sys :: "('k, 'v, 'e) system \<Rightarrow> bool" where
  "idle_sys s \<longleftrightarrow>
     (\<forall>t. pcs s t = Idle) \<and> list_all (\<lambda>p. snd p < fresh s) (evictList (core s))"

definition ran ::
  "('k, 'v::zero, 'e) action list \<Rightarrow> ('k, 'v, 'e) system \<Rightarrow> ('k, 'v, 'e) system" where
  "ran as s = (case exec as s of None \<Rightarrow> s | Some s' \<Rightarrow> s')"





text \<open>
  The race while the published pair stays fresh. \<open>c0\<close> is the millisecond count of the
  clock when the race starts and \<open>B\<close> a millisecond count the clock stays below, while
  every \<open>expires\<close> a publication stores is at least \<open>B\<close>. An item is \<open>stale\<close> when
  it has \<open>expires = 0\<close> or an \<open>expires\<close> that is not after the start of the race; a
  pair is \<open>served\<close> when the item of the key holds it with an \<open>expires\<close> of at least
  \<open>B\<close>. A goroutine past the test of line 50 on the path of a hit works with the
  published pair; a goroutine between the test of line 62 and the assignment of
  \<open>expires\<close> works on a stale item, and on a published one after it.
\<close>

definition stale :: "int \<Rightarrow> ('v, 'e) inertiaLruItem \<Rightarrow> bool" where
  "stale c0 i \<longleftrightarrow> expires i = 0 \<or> expires i \<le> c0"

definition served :: "'k \<Rightarrow> int \<Rightarrow> ('k, 'v, 'e) system \<Rightarrow> 'v \<Rightarrow> 'e option \<Rightarrow> bool" where
  "served k B s va er \<longleftrightarrow>
     (\<exists>a. item_of s k = Some a \<and> B \<le> expires (heap s a) \<and>
          val (heap s a) = va \<and> err (heap s a) = er)"

fun race_at ::
  "'k \<Rightarrow> int \<Rightarrow> int \<Rightarrow> ('k, 'v, 'e) system \<Rightarrow> ('k, 'v, 'e) pc \<Rightarrow> bool" where
  "race_at k B c0 s (L51 v va er) =
     (B \<le> expires (heap s v) \<and> val (heap s v) = va \<and> err (heap s v) = er)"
| "race_at k B c0 s (L52 va er) = served k B s va er"
| "race_at k B c0 s (L53 va er) = served k B s va er"
| "race_at k B c0 s (Returned va er) = served k B s va er"
| "race_at k B c0 s (L62 v) = stale c0 (heap s v)"
| "race_at k B c0 s (L65 v) = stale c0 (heap s v)"
| "race_at k B c0 s (Fetching v) = stale c0 (heap s v)"
| "race_at k B c0 s (L66 v) = stale c0 (heap s v)"
| "race_at k B c0 s (L67 v) = stale c0 (heap s v)"
| "race_at k B c0 s (L70 v) = stale c0 (heap s v)"
| "race_at k B c0 s (L68 v) = (B \<le> expires (heap s v))"
| "race_at k B c0 s (L71 v) = (B \<le> expires (heap s v))"
| "race_at k B c0 s (L73 v) = (B \<le> expires (heap s v))"
| "race_at k B c0 s p = True"




text \<open>
  The cache of the scenarios shared by goroutines, none of which has a call in progress,
  at the epoch.
\<close>

definition shared :: "nat \<Rightarrow> (string, int, string) system" where
  "shared n =
     \<lparr>xlock = False, core = \<lparr>lru_size = n, evictList = [], onEvict = True\<rparr>,
      successTTL = ms 100, failedTTL = ms 10,
      target = \<lparr>getHit = 0, getSuccess = 0, getFailed = 0\<rparr>,
      heap = (\<lambda>_. new_item), fresh = 0, evictions = [], fetched = 0,
      pcs = (\<lambda>_. Idle), clock = 0, tally = (\<lambda>_. no_calls), fetches = (\<lambda>_. 0)\<rparr>"

text \<open>
  Two goroutines call \<^verbatim>\<open>Get("a", fetch)\<close> on the empty cache of the scenarios.
  Goroutine 0 misses, inserts the item and calls \<open>fetch\<close>; goroutine 1 finds the item
  and waits for its mutex (\<open>race_start\<close>). In \<open>race_hit\<close> the \<open>fetch\<close> returns
  \<open>(7, nil)\<close> after 50 ms and goroutine 1 then runs to its return. In
  \<open>race_refetch\<close> the \<open>fetch\<close> fails, and goroutine 1 takes the mutex 11 ms after
  goroutine 0 has returned, when the failure TTL of 10 ms has passed; its own \<open>fetch\<close>
  returns \<open>(5, nil)\<close>.
\<close>

definition race_start :: "(string, int, string) action list" where
  "race_start =
     [InvGet 0 ''a'', InvGet 1 ''a'',
      Step 0, Step 0, Step 0, Step 0, Step 0, Step 0, Step 0, Step 0,
      Step 1, Step 1, Step 1]"

definition race_hit :: "(string, int, string) action list" where
  "race_hit =
     race_start @
     [Ret 0 7 None, Tick 50000000, Step 0, Step 0, Step 0, Step 0,
      Step 1, Step 1, Step 1, Step 1, Step 1, Step 1]"

definition race_refetch :: "(string, int, string) action list" where
  "race_refetch =
     race_start @
     [Ret 0 0 (Some ''down''), Step 0, Step 0, Step 0, Step 0, Tick 11000000,
      Step 1, Step 1, Step 1, Step 1, Step 1, Ret 1 5 None, Step 1, Step 1, Step 1, Step 1]"

text \<open>
  The clock set back. In \<open>clock_back\<close> goroutine 0 calls \<^verbatim>\<open>Get("a", fetch)\<close> on
  the empty cache at the epoch and publishes \<open>(7, nil)\<close> with \<open>expires = 100\<close>;
  100 ms later goroutine 1 calls \<^verbatim>\<open>Get("a", fetch)\<close>, finds the item and fails the
  test of line 50 (\<open>100 > 100\<close>); the clock is then set back by 1 ms, and the
  goroutine runs the test of line 62. In \<open>before_epoch\<close> the clock is set 1 ns
  before the epoch, and goroutine 0 calls \<^verbatim>\<open>Get("a", fetch)\<close> on the empty cache
  and runs to the test of line 62 and past it.
\<close>

definition clock_back :: "(string, int, string) action list" where
  "clock_back =
     [InvGet 0 ''a'', Step 0, Step 0, Step 0, Step 0, Step 0, Step 0, Step 0, Step 0,
      Ret 0 7 None, Step 0, Step 0, Step 0, Step 0,
      Tick 100000000, InvGet 1 ''a'', Step 1, Step 1, Step 1, Step 1, Step 1, Step 1,
      Tick (- 1000000), Step 1]"

definition before_epoch :: "(string, int, string) action list" where
  "before_epoch =
     [Tick (- 1), InvGet 0 ''a'', Step 0, Step 0, Step 0, Step 0, Step 0, Step 0, Step 0]"



text \<open>
  Calls that are not a \<^verbatim>\<open>Get\<close> of a given key, and calls whose \<^verbatim>\<open>Get\<close>s read
  at line 50 a clock below a given millisecond count.
\<close>

fun is_Get_of :: "'k \<Rightarrow> ('k, 'v, 'e) call \<Rightarrow> bool" where
  "is_Get_of k (CallGet k' fetch t50 t62 t67) = (k' = k)"
| "is_Get_of k (CallDel k') = False"

fun reads_before :: "int \<Rightarrow> ('k, 'v, 'e) call \<Rightarrow> bool" where
  "reads_before E (CallGet k' fetch t50 t62 t67) = (UnixMilli t50 < E)"
| "reads_before E (CallDel k') = True"

text \<open>
  The item at address \<open>v\<close>, allocated for \<open>key\<close>, still is \<open>i\<close>, in a state of
  the program with the cache mutex free.
\<close>

definition kept :: "'k \<Rightarrow> nat \<Rightarrow> ('v, 'e) inertiaLruItem \<Rightarrow> ('k, 'v, 'e, 'z) state_scheme \<Rightarrow> bool" where
  "kept key v i s \<longleftrightarrow>
     wf_cache s \<and> \<not> xlock s \<and> v < fresh s \<and> heap s v = i \<and>
     (\<forall>k. item_of s k = Some v \<longrightarrow> k = key)"

section \<open>Lists of entries\<close>

lemma map_of_filter_key:
  "map_of (filter (\<lambda>p. fst p \<noteq> k) xs) k' = (if k' = k then None else map_of xs k')"
  by (induction xs) auto

lemma filter_key_absent: "map_of xs k = None \<Longrightarrow> filter (\<lambda>p. fst p \<noteq> k) xs = xs"
  by (induction xs) (auto split: if_splits)

lemma length_filter_key_present:
  "map_of xs k = Some v \<Longrightarrow> length (filter (\<lambda>p. fst p \<noteq> k) xs) < length xs"
  by (induction xs) (auto split: if_splits simp: less_Suc_eq_le)

lemma distinct_fst_filter: "distinct (map fst xs) \<Longrightarrow> distinct (map fst (filter P xs))"
  by (induction xs) auto

lemma distinct_snd_filter: "distinct (map snd xs) \<Longrightarrow> distinct (map snd (filter P xs))"
  by (induction xs) auto

lemma snd_notin_filter_key:
  "distinct (map snd xs) \<Longrightarrow> map_of xs k = Some v \<Longrightarrow> v \<notin> snd ` set (filter (\<lambda>p. fst p \<noteq> k) xs)"
proof (induction xs)
  case Nil
  then show ?case by simp
next
  case (Cons p xs)
  show ?case
  proof (cases "fst p = k")
    case True
    with Cons.prems have "snd p = v" by simp
    with Cons.prems True show ?thesis by (auto simp: image_iff)
  next
    case False
    with Cons.prems have m: "map_of xs k = Some v" by simp
    then have "(k, v) \<in> set xs" by (rule map_of_SomeD)
    then have "v \<in> snd ` set xs" by force
    with Cons.prems have "snd p \<noteq> v" by auto
    with Cons False m show ?thesis by auto
  qed
qed

lemma distinct_map_butlast: "distinct (map f xs) \<Longrightarrow> distinct (map f (butlast xs))"
  by (simp add: distinct_butlast map_butlast)

lemma list_all_butlast: "list_all P xs \<Longrightarrow> list_all P (butlast xs)"
  by (induction xs) auto

lemma list_all_filter: "list_all P xs \<Longrightarrow> list_all P (filter Q xs)"
  by (induction xs) auto

lemma Get_locked_frame:
  "core (snd (Get_locked v fetch t62 t67 s)) = core s"
  "fresh (snd (Get_locked v fetch t62 t67 s)) = fresh s"
  "evictions (snd (Get_locked v fetch t62 t67 s)) = evictions s"
  "xlock (snd (Get_locked v fetch t62 t67 s)) = xlock s"
  "successTTL (snd (Get_locked v fetch t62 t67 s)) = successTTL s"
  "failedTTL (snd (Get_locked v fetch t62 t67 s)) = failedTTL s"
  by (simp_all add: Get_locked_def set_lock_def Let_def)

section \<open>The calls, equation by equation\<close>

lemma set_lock_fields [simp]:
  "heap (set_lock v b s) = (heap s)(v := (heap s v)\<lparr>lock := b\<rparr>)"
  "core (set_lock v b s) = core s"
  "fresh (set_lock v b s) = fresh s"
  "evictions (set_lock v b s) = evictions s"
  "fetched (set_lock v b s) = fetched s"
  "xlock (set_lock v b s) = xlock s"
  "target (set_lock v b s) = target s"
  "successTTL (set_lock v b s) = successTTL s"
  "failedTTL (set_lock v b s) = failedTTL s"
  by (simp_all add: set_lock_def)

lemma cb_fields [simp]:
  "heap (cb calls s) = heap s"
  "core (cb calls s) = core s"
  "fresh (cb calls s) = fresh s"
  "evictions (cb calls s) = evictions s @ map (\<lambda>(k, a). (k, val (heap s a))) calls"
  "fetched (cb calls s) = fetched s"
  "xlock (cb calls s) = xlock s"
  "target (cb calls s) = target s"
  "successTTL (cb calls s) = successTTL s"
  "failedTTL (cb calls s) = failedTTL s"
  by (simp_all add: cb_def)

lemma cb_Nil [simp]: "cb [] s = s"
  by (simp add: cb_def)

lemma set_lock_same: "lock (heap s v) = b \<Longrightarrow> set_lock v b s = s"
proof -
  assume "lock (heap s v) = b"
  then have "(heap s v)\<lparr>lock := b\<rparr> = heap s v" by simp
  then show ?thesis by (simp add: set_lock_def)
qed

lemma set_lock_twice: "set_lock v b (set_lock v b' s) = set_lock v b s"
  by (simp add: set_lock_def)

lemma set_lock_core_upd: "set_lock v b (s\<lparr>core := c\<rparr>) = (set_lock v b s)\<lparr>core := c\<rparr>"
  by (simp add: set_lock_def)

lemma Get_hit:
  assumes "\<not> xlock s" "item_of s key = Some v" "\<not> lock (heap s v)"
    "expires (heap s v) \<noteq> 0" "UnixMilli t50 < expires (heap s v)"
  shows "Get key fetch t50 t62 t67 s =
           Some ((val (heap s v), err (heap s v)),
                 s\<lparr>core := snd (lru_Get key (core s)), target := IncrGetHit (target s)\<rparr>)"
proof -
  have "set_lock v False s = s" using assms(3) by (simp add: set_lock_same)
  then have "set_lock v False (set_lock v True (s\<lparr>core := snd (lru_Get key (core s))\<rparr>))
               = s\<lparr>core := snd (lru_Get key (core s))\<rparr>"
    by (simp add: set_lock_twice set_lock_core_upd)
  moreover have "heap (set_lock v True (s\<lparr>core := c\<rparr>)) v = (heap s v)\<lparr>lock := True\<rparr>" for c
    by (simp add: set_lock_def)
  ultimately show ?thesis
    using assms by (simp add: Get_def item_of_def lru_Get_def Let_def del: set_lock_fields(1))
qed

lemma Get_stale:
  assumes "\<not> xlock s" "item_of s key = Some v" "\<not> lock (heap s v)"
    "\<not> (expires (heap s v) \<noteq> 0 \<and> UnixMilli t50 < expires (heap s v))"
  shows "Get key fetch t50 t62 t67 s =
           Some (Get_locked v fetch t62 t67
                   (set_lock v True (s\<lparr>core := snd (lru_Get key (core s))\<rparr>)))"
  using assms by (auto simp add: Get_def item_of_def lru_Get_def set_lock_def Let_def)

lemma Get_miss:
  assumes "\<not> xlock s" "item_of s key = None"
  shows "Get key fetch t50 t62 t67 s =
           Some (Get_locked (fresh s) fetch t62 t67
                   (set_lock (fresh s) True
                      (cb (snd (lru_Add key (fresh s) (core s)))
                         (s\<lparr>heap := (heap s)(fresh s := new_item), fresh := Suc (fresh s),
                            core := fst (lru_Add key (fresh s) (core s))\<rparr>))))"
  using assms by (simp add: Get_def item_of_def lru_Get_def Let_def split: prod.splits)

lemma Get_returns:
  assumes "\<not> xlock s" "\<And>v. item_of s key = Some v \<Longrightarrow> \<not> lock (heap s v)"
  shows "\<exists>r s'. Get key fetch t50 t62 t67 s = Some (r, s')"
proof (cases "item_of s key")
  case None
  with assms(1) show ?thesis by (metis Get_miss surj_pair)
next
  case (Some v)
  with assms show ?thesis by (metis Get_hit Get_stale surj_pair)
qed

lemma Get_locked_cached:
  "UnixMilli t62 < expires (heap s v) \<Longrightarrow>
     Get_locked v fetch t62 t67 s = ((val (heap s v), err (heap s v)), set_lock v False s)"
  by (simp add: Get_locked_def)

lemma item_all_upd:
  "i\<lparr>err := e, val := a, expires := x, lock := l\<rparr> = \<lparr>lock = l, expires = x, err = e, val = a\<rparr>"
  by (cases i) simp

lemma Get_locked_fetch:
  assumes "\<not> UnixMilli t62 < expires (heap s v)"
  shows "Get_locked v fetch t62 t67 s =
           (fetch,
            s\<lparr>heap := (heap s)(v :=
                 \<lparr>lock = False,
                  expires = UnixMilli (Add t67 (if snd fetch = None then successTTL s
                                               else failedTTL s)),
                  err = snd fetch, val = fst fetch\<rparr>),
               fetched := Suc (fetched s),
               target := (if snd fetch = None then IncrGetSuccess (target s)
                          else IncrGetFailed (target s))\<rparr>)"
  using assms by (cases fetch) (simp add: Get_locked_def Let_def set_lock_def item_all_upd)

lemma UnixMilli_mono: "t \<le> t' \<Longrightarrow> UnixMilli t \<le> UnixMilli t'"
  by (simp add: UnixMilli_def zdiv_mono1)

lemma UnixMilli_nonneg: "0 \<le> t \<Longrightarrow> 0 \<le> UnixMilli t"
  by (simp add: UnixMilli_def)

lemma lru_Get_evictList:
  "map_of (evictList c) key = Some v \<Longrightarrow>
     evictList (snd (lru_Get key c)) = (key, v) # filter (\<lambda>p. fst p \<noteq> key) (evictList c)"
  "lru_size (snd (lru_Get key c)) = lru_size c"
  "onEvict (snd (lru_Get key c)) = onEvict c"
  by (simp_all add: lru_Get_def split: option.splits)

lemma lru_Add_absent:
  assumes "map_of (evictList c) key = None"
  shows "evictList (fst (lru_Add key v c)) =
           (if lru_size c \<le> length (evictList c) then butlast ((key, v) # evictList c)
            else (key, v) # evictList c)"
    and "snd (lru_Add key v c) =
           (if lru_size c \<le> length (evictList c) \<and> onEvict c
            then [last ((key, v) # evictList c)] else [])"
    and "lru_size (fst (lru_Add key v c)) = lru_size c"
    and "onEvict (fst (lru_Add key v c)) = onEvict c"
  using assms by (auto simp add: lru_Add_def Let_def filter_key_absent)

lemma wf_Get_locked: "wf_cache (snd (Get_locked v fetch t62 t67 s)) = wf_cache s"
  by (simp add: wf_cache_def Get_locked_frame)

lemma wf_found:
  assumes "wf_cache s" "item_of s key = Some v"
  shows "wf_cache (set_lock v b (s\<lparr>core := snd (lru_Get key (core s))\<rparr>))"
proof -
  let ?xs = "evictList (core s)"
  let ?ys = "filter (\<lambda>p. fst p \<noteq> key) ?xs"
  have m: "map_of ?xs key = Some v" using assms(2) by (simp add: item_of_def)
  have len: "length ?ys < length ?xs" using m by (rule length_filter_key_present)
  have d1: "distinct (map fst ?ys)" using assms(1) by (simp add: wf_cache_def distinct_fst_filter)
  have d2: "distinct (map snd ?ys)" using assms(1) by (simp add: wf_cache_def distinct_snd_filter)
  have n1: "key \<notin> fst ` set ?ys" by auto
  have "distinct (map snd ?xs)" using assms(1) by (simp add: wf_cache_def)
  then have n2: "v \<notin> snd ` set ?ys" using m by (rule snd_notin_filter_key)
  have a1: "list_all (\<lambda>p. snd p < fresh s) ?ys" using assms(1) by (simp add: wf_cache_def list_all_filter)
  have "(key, v) \<in> set ?xs" using m by (rule map_of_SomeD)
  then have a2: "v < fresh s" using assms(1) by (auto simp: wf_cache_def list_all_iff)
  show ?thesis
    using assms(1) len d1 d2 n1 n2 a1 a2 by (simp add: wf_cache_def lru_Get_evictList(1)[OF m] lru_Get_evictList(2,3))
qed

lemma wf_miss:
  assumes "wf_cache s" "item_of s key = None"
  shows "wf_cache (set_lock (fresh s) b
               (cb (snd (lru_Add key (fresh s) (core s)))
                  (s\<lparr>heap := h, fresh := Suc (fresh s),
                     core := fst (lru_Add key (fresh s) (core s))\<rparr>)))"
proof -
  let ?xs = "evictList (core s)"
  let ?l = "(key, fresh s) # ?xs"
  have m: "map_of ?xs key = None" using assms(2) by (simp add: item_of_def)
  have k: "key \<notin> fst ` set ?xs" using m by (simp add: map_of_eq_None_iff)
  have all: "list_all (\<lambda>p. snd p < fresh s) ?xs" using assms(1) by (simp add: wf_cache_def)
  then have f: "fresh s \<notin> snd ` set ?xs" by (auto simp: list_all_iff)
  have d1: "distinct (map fst ?l)" using assms(1) k by (simp add: wf_cache_def)
  have d2: "distinct (map snd ?l)" using assms(1) f by (simp add: wf_cache_def)
  have a: "list_all (\<lambda>p. snd p < Suc (fresh s)) ?l"
    using all by (auto simp: list_all_iff less_Suc_eq)
  have d1': "distinct (map fst (butlast ?l))" using d1 by (rule distinct_map_butlast)
  have d2': "distinct (map snd (butlast ?l))" using d2 by (rule distinct_map_butlast)
  have a': "list_all (\<lambda>p. snd p < Suc (fresh s)) (butlast ?l)" using a by (rule list_all_butlast)
  show ?thesis
    using assms(1) d1 d2 a d1' d2' a'
    by (simp add: wf_cache_def lru_Add_absent[OF m] del: distinct.simps list.map butlast.simps list.pred_inject)
qed

lemma wf_Get:
  assumes "wf_cache s" "Get key fetch t50 t62 t67 s = Some (r, s')"
  shows "wf_cache s'"
proof -
  have x: "\<not> xlock s" using assms(2) by (auto simp: Get_def split: if_splits)
  show ?thesis
  proof (cases "item_of s key")
    case None
    from assms(2) show ?thesis
      unfolding Get_miss[OF x None]
      using wf_miss[OF assms(1) None] wf_Get_locked by (metis option.inject snd_conv)
  next
    case (Some v)
    have l: "\<not> lock (heap s v)"
      using assms(2) Some x by (auto simp: Get_def item_of_def lru_Get_def split: if_splits)
    show ?thesis
    proof (cases "expires (heap s v) \<noteq> 0 \<and> UnixMilli t50 < expires (heap s v)")
      case True
      then have "s' = s\<lparr>core := snd (lru_Get key (core s)), target := IncrGetHit (target s)\<rparr>"
        using assms(2) Get_hit[OF x Some l, of t50 fetch t62 t67] by simp
      moreover have "wf_cache (set_lock v False (s\<lparr>core := snd (lru_Get key (core s))\<rparr>))"
        using assms(1) Some by (rule wf_found)
      ultimately show ?thesis by (simp add: wf_cache_def)
    next
      case False
      from assms(2) show ?thesis
        unfolding Get_stale[OF x Some l False]
        using wf_found[OF assms(1) Some] wf_Get_locked by (metis option.inject snd_conv)
    qed
  qed
qed

lemma Del_eq:
  "\<not> xlock s \<Longrightarrow>
     Del key s = Some (item_of s key \<noteq> None,
                       s\<lparr>core := (core s)\<lparr>evictList := filter (\<lambda>p. fst p \<noteq> key) (evictList (core s))\<rparr>\<rparr>)"
  by (simp add: Del_def lru_Remove_def item_of_def)

lemma wf_Del:
  assumes "wf_cache s" "Del key s = Some (ok, s')"
  shows "wf_cache s'"
proof -
  have x: "\<not> xlock s" using assms(2) by (auto simp: Del_def split: if_splits)
  have "length (filter (\<lambda>p. fst p \<noteq> key) (evictList (core s))) \<le> length (evictList (core s))"
    by simp
  moreover have "length (evictList (core s)) \<le> lru_size (core s)"
    using assms(1) by (simp add: wf_cache_def)
  ultimately have "length (filter (\<lambda>p. fst p \<noteq> key) (evictList (core s))) \<le> lru_size (core s)"
    by (rule le_trans)
  then show ?thesis
    using assms unfolding Del_eq[OF x]
    by (auto simp: wf_cache_def distinct_fst_filter distinct_snd_filter list_all_filter)
qed

lemma wf_run: "wf_cache s \<Longrightarrow> run cs s = Some (rs, s') \<Longrightarrow> wf_cache s'"
proof (induction cs arbitrary: s rs)
  case Nil
  then show ?case by simp
next
  case (Cons c cs)
  show ?case
  proof (cases c)
    case (CallGet key fetch t50 t62 t67)
    with Cons.prems obtain r s1 rs1 where
      g: "Get key fetch t50 t62 t67 s = Some (r, s1)" and r: "run cs s1 = Some (rs1, s')"
      by (auto split: option.splits)
    from Cons.prems(1) g have "wf_cache s1" by (rule wf_Get)
    then show ?thesis using r by (rule Cons.IH)
  next
    case (CallDel key)
    with Cons.prems obtain ok s1 rs1 where
      g: "Del key s = Some (ok, s1)" and r: "run cs s1 = Some (rs1, s')"
      by (auto split: option.splits)
    from Cons.prems(1) g have "wf_cache s1" by (rule wf_Del)
    then show ?thesis using r by (rule Cons.IH)
  qed
qed

lemma scenario_new:
  "0 < n \<Longrightarrow>
     NewInertiaLRU n (ms 100) (ms 10) \<lparr>getHit = 0, getSuccess = 0, getFailed = 0\<rparr> True
       = Inr (scenario (nat n))"
  by (simp add: NewInertiaLRU_def NewLRU_def scenario_def)


section \<open>Hits and fetches\<close>

lemmas eval_defs =
  after_def Get_def Del_def scenario_def lru_Get_def lru_Add_def lru_Remove_def Get_locked_def
  Let_def cb_def set_lock_def ms_def UnixMilli_def Add_def new_item_def IncrGetSuccess_def
  IncrGetFailed_def IncrGetHit_def item_of_def wf_cache_def

text \<open>
  Claim C5. When \<^verbatim>\<open>Get\<close> finds an entry for the key whose snapshot has
  \<open>expires \<noteq> 0\<close> and \<open>expires > now\<close> (the reading of line 50, in milliseconds), it
  returns the stored pair as it is, a stored error included, calls
  \<^verbatim>\<open>IncrGetHit\<close> once and neither of the other two methods of the sink, does not call
  \<open>fetch\<close>, and leaves every item as it was.
\<close>

theorem Get_fresh_hit:
  assumes "\<not> xlock s" and "item_of s key = Some v" and "\<not> lock (heap s v)"
    and "expires (heap s v) \<noteq> 0" and "UnixMilli t50 < expires (heap s v)"
  shows "\<exists>s'. Get key fetch t50 t62 t67 s = Some ((val (heap s v), err (heap s v)), s')
           \<and> getHit (target s') = Suc (getHit (target s))
           \<and> getSuccess (target s') = getSuccess (target s)
           \<and> getFailed (target s') = getFailed (target s)
           \<and> fetched s' = fetched s
           \<and> heap s' = heap s"
  unfolding Get_hit[OF assms] by (simp add: IncrGetHit_def)

theorem Get_fresh_hit_witness:
  "\<not> xlock (after [CallGet ''a'' (0, Some ''down'') 0 0 0] (scenario 2))
   \<and> item_of (after [CallGet ''a'' (0, Some ''down'') 0 0 0] (scenario 2)) ''a'' = Some 0
   \<and> \<not> lock (heap (after [CallGet ''a'' (0, Some ''down'') 0 0 0] (scenario 2)) 0)
   \<and> expires (heap (after [CallGet ''a'' (0, Some ''down'') 0 0 0] (scenario 2)) 0) = 10
   \<and> UnixMilli (ms 5) < 10
   \<and> (\<exists>s'. Get ''a'' (7, None) (ms 5) (ms 5) (ms 5)
               (after [CallGet ''a'' (0, Some ''down'') 0 0 0] (scenario 2))
             = Some ((0, Some ''down''), s')
           \<and> getHit (target s') = 1 \<and> getSuccess (target s') = 0 \<and> getFailed (target s') = 1
           \<and> fetched s' = 1)"
proof -
  let ?s = "after [CallGet ''a'' (0, Some ''down'') 0 0 0] (scenario 2)"
  have h: "\<not> xlock ?s" "item_of ?s ''a'' = Some 0" "\<not> lock (heap ?s 0)"
    "expires (heap ?s 0) \<noteq> 0" "UnixMilli (ms 5) < expires (heap ?s 0)"
    by (simp_all add: eval_defs)
  have v: "expires (heap ?s 0) = 10" "val (heap ?s 0) = 0" "err (heap ?s 0) = Some ''down''"
    "getHit (target ?s) = 0" "getSuccess (target ?s) = 0" "getFailed (target ?s) = 1" "fetched ?s = 1"
    "UnixMilli (ms 5) < 10"
    by (simp_all add: eval_defs)
  from Get_fresh_hit[OF h, of "(7, None)" "ms 5" "ms 5"] h v show ?thesis
    by auto
qed

lemma Get_fetched:
  assumes "Get key fetch t50 t62 t67 s = Some (r, s')" and "fetched s' \<noteq> fetched s"
  shows "r = fetch \<and> fetched s' = Suc (fetched s)
         \<and> target s' = (if snd fetch = None then IncrGetSuccess (target s)
                         else IncrGetFailed (target s))
         \<and> (\<exists>v. (item_of s key = Some v \<or> item_of s key = None \<and> v = fresh s)
                \<and> (0 < lru_size (core s) \<longrightarrow> item_of s' key = Some v)
                \<and> heap s' v =
                    \<lparr>lock = False,
                     expires = UnixMilli (Add t67 (if snd fetch = None then successTTL s
                                                  else failedTTL s)),
                     err = snd fetch, val = fst fetch\<rparr>)"
proof -
  have x: "\<not> xlock s" using assms(1) by (auto simp: Get_def split: if_splits)
  show ?thesis
  proof (cases "item_of s key")
    case None
    let ?s3 = "set_lock (fresh s) True
                 (cb (snd (lru_Add key (fresh s) (core s)))
                    (s\<lparr>heap := (heap s)(fresh s := new_item), fresh := Suc (fresh s),
                       core := fst (lru_Add key (fresh s) (core s))\<rparr>))"
    have g: "Get_locked (fresh s) fetch t62 t67 ?s3 = (r, s')"
      using assms(1) unfolding Get_miss[OF x None] by simp
    have nf: "\<not> UnixMilli t62 < expires (heap ?s3 (fresh s))"
    proof
      assume "UnixMilli t62 < expires (heap ?s3 (fresh s))"
      then have "fetched s' = fetched s" using g by (auto simp: Get_locked_cached)
      with assms(2) show False by simp
    qed
    have m: "map_of (evictList (core s)) key = None" using None by (simp add: item_of_def)
    have i: "0 < lru_size (core s) \<longrightarrow> item_of s' key = Some (fresh s)"
      using g unfolding Get_locked_fetch[OF nf]
      by (cases "evictList (core s)") (auto simp: item_of_def lru_Add_absent[OF m])
    show ?thesis
      using g None i unfolding Get_locked_fetch[OF nf] by auto
  next
    case (Some v)
    have l: "\<not> lock (heap s v)"
      using assms(1) Some x by (auto simp: Get_def item_of_def lru_Get_def split: if_splits)
    have st: "\<not> (expires (heap s v) \<noteq> 0 \<and> UnixMilli t50 < expires (heap s v))"
    proof
      assume "expires (heap s v) \<noteq> 0 \<and> UnixMilli t50 < expires (heap s v)"
      then have "fetched s' = fetched s"
        using assms(1) Get_hit[OF x Some l, of t50 fetch t62 t67] by auto
      with assms(2) show False by simp
    qed
    let ?s1 = "set_lock v True (s\<lparr>core := snd (lru_Get key (core s))\<rparr>)"
    have g: "Get_locked v fetch t62 t67 ?s1 = (r, s')"
      using assms(1) unfolding Get_stale[OF x Some l st] by simp
    have nf: "\<not> UnixMilli t62 < expires (heap ?s1 v)"
    proof
      assume "UnixMilli t62 < expires (heap ?s1 v)"
      then have "fetched s' = fetched s" using g by (auto simp: Get_locked_cached)
      with assms(2) show False by simp
    qed
    have m: "map_of (evictList (core s)) key = Some v" using Some by (simp add: item_of_def)
    show ?thesis
      using g Some unfolding Get_locked_fetch[OF nf]
      by (auto simp: item_of_def lru_Get_evictList(1)[OF m])
  qed
qed

text \<open>
  Claim C6. Whenever \<^verbatim>\<open>Get\<close> calls \<open>fetch\<close> and \<open>fetch\<close> returns \<open>(v, e)\<close>:
  the call returns exactly \<open>(v, e)\<close>; the item of the key (the one found, or the one just
  allocated) holds \<open>v\<close> and \<open>e\<close>, its mutex released; its \<open>expires\<close> is the reading of
  line 67 plus \<open>successTTL\<close> when \<open>e\<close> is nil, with one call of
  \<^verbatim>\<open>IncrGetSuccess\<close>, and the reading of line 70 plus \<open>failedTTL\<close> otherwise, with
  one call of \<^verbatim>\<open>IncrGetFailed\<close>.
\<close>

theorem Get_fetch_publishes:
  assumes "Get key fetch t50 t62 t67 s = Some (r, s')" and "fetched s' \<noteq> fetched s"
  shows "r = fetch \<and> fetched s' = Suc (fetched s)
         \<and> target s' = (if snd fetch = None then IncrGetSuccess (target s)
                         else IncrGetFailed (target s))
         \<and> (\<exists>v. (item_of s key = Some v \<or> item_of s key = None \<and> v = fresh s)
                \<and> (0 < lru_size (core s) \<longrightarrow> item_of s' key = Some v)
                \<and> heap s' v =
                    \<lparr>lock = False,
                     expires = UnixMilli (Add t67 (if snd fetch = None then successTTL s
                                                  else failedTTL s)),
                     err = snd fetch, val = fst fetch\<rparr>)"
  using assms by (rule Get_fetched)

theorem Get_fetch_publishes_witness:
  "Get ''a'' (1, None) 0 0 (ms 3) (scenario 2)
     = Some ((1, None), after [CallGet ''a'' (1, None) 0 0 (ms 3)] (scenario 2))
   \<and> fetched (after [CallGet ''a'' (1, None) 0 0 (ms 3)] (scenario 2)) \<noteq> fetched (scenario 2)
   \<and> fetched (after [CallGet ''a'' (1, None) 0 0 (ms 3)] (scenario 2)) = 1
   \<and> target (after [CallGet ''a'' (1, None) 0 0 (ms 3)] (scenario 2))
       = \<lparr>getHit = 0, getSuccess = 1, getFailed = 0\<rparr>
   \<and> item_of (after [CallGet ''a'' (1, None) 0 0 (ms 3)] (scenario 2)) ''a'' = Some 0
   \<and> heap (after [CallGet ''a'' (1, None) 0 0 (ms 3)] (scenario 2)) 0
       = \<lparr>lock = False, expires = 103, err = None, val = 1\<rparr>"
proof -
  let ?s' = "after [CallGet ''a'' (1, None) 0 0 (ms 3)] (scenario 2)"
  have g: "Get ''a'' (1, None) 0 0 (ms 3) (scenario 2) = Some ((1, None), ?s')"
    by (simp add: eval_defs)
  have f: "fetched ?s' \<noteq> fetched (scenario 2)"
    by (simp add: eval_defs)
  have e: "item_of (scenario 2) ''a'' = None" "fresh (scenario 2) = 0" "successTTL (scenario 2) = ms 100"
    "target (scenario 2) = \<lparr>getHit = 0, getSuccess = 0, getFailed = 0\<rparr>" "fetched (scenario 2) = 0"
    "0 < lru_size (core (scenario 2))"
    by (simp_all add: scenario_def item_of_def)
  from Get_fetch_publishes[OF g f] g f e show ?thesis
    by (simp add: IncrGetSuccess_def UnixMilli_def Add_def ms_def)
qed

lemma wf_cache_new:
  "0 < n \<Longrightarrow>
     wf_cache \<lparr>xlock = False, core = \<lparr>lru_size = n, evictList = [], onEvict = b\<rparr>,
               successTTL = sTTL, failedTTL = fTTL, target = tgt,
               heap = h, fresh = 0, evictions = [], fetched = 0\<rparr>"
  by (simp add: wf_cache_def)

lemma Get_cases [consumes 1, case_names miss hit stale]:
  assumes "Get key fetch t50 t62 t67 s = Some (r, s')"
  obtains
    (miss) "\<not> xlock s" "item_of s key = None"
      "(r, s') = Get_locked (fresh s) fetch t62 t67
                   (set_lock (fresh s) True
                      (cb (snd (lru_Add key (fresh s) (core s)))
                         (s\<lparr>heap := (heap s)(fresh s := new_item), fresh := Suc (fresh s),
                            core := fst (lru_Add key (fresh s) (core s))\<rparr>)))"
  | (hit) v where "\<not> xlock s" "item_of s key = Some v" "\<not> lock (heap s v)"
      "expires (heap s v) \<noteq> 0" "UnixMilli t50 < expires (heap s v)"
      "r = (val (heap s v), err (heap s v))"
      "s' = s\<lparr>core := snd (lru_Get key (core s)), target := IncrGetHit (target s)\<rparr>"
  | (stale) v where "\<not> xlock s" "item_of s key = Some v" "\<not> lock (heap s v)"
      "\<not> (expires (heap s v) \<noteq> 0 \<and> UnixMilli t50 < expires (heap s v))"
      "(r, s') = Get_locked v fetch t62 t67
                   (set_lock v True (s\<lparr>core := snd (lru_Get key (core s))\<rparr>))"
proof -
  have x: "\<not> xlock s" using assms by (auto simp: Get_def split: if_splits)
  show thesis
  proof (cases "item_of s key")
    case None
    with assms x show thesis by (intro miss) (simp_all add: Get_miss)
  next
    case (Some v)
    have l: "\<not> lock (heap s v)"
      using assms Some x by (auto simp: Get_def item_of_def lru_Get_def split: if_splits)
    show thesis
    proof (cases "expires (heap s v) \<noteq> 0 \<and> UnixMilli t50 < expires (heap s v)")
      case True
      with assms x Some l show thesis
        by (intro hit[of v]) (simp_all add: Get_hit)
    next
      case False
      with assms x Some l show thesis
        by (intro stale[of v]) (simp_all add: Get_stale)
    qed
  qed
qed

lemma Get_locked_snd_frame:
  assumes "(r, s') = Get_locked v fetch t62 t67 s"
  shows "core s' = core s" "fresh s' = fresh s" "evictions s' = evictions s" "xlock s' = xlock s"
    "successTTL s' = successTTL s" "failedTTL s' = failedTTL s"
    "\<And>a. a \<noteq> v \<Longrightarrow> heap s' a = heap s a"
proof -
  have s': "s' = snd (Get_locked v fetch t62 t67 s)" using assms by (metis snd_conv)
  show "core s' = core s" "fresh s' = fresh s" "evictions s' = evictions s" "xlock s' = xlock s"
    "successTTL s' = successTTL s" "failedTTL s' = failedTTL s"
    unfolding s' by (simp_all add: Get_locked_frame)
  show "heap s' a = heap s a" if "a \<noteq> v" for a
    unfolding s' using that by (simp add: Get_locked_def Let_def)
qed

lemma lru_size_Get:
  assumes "Get key fetch t50 t62 t67 s = Some (r, s')"
  shows "lru_size (core s') = lru_size (core s)"
  using assms
proof (cases rule: Get_cases)
  case miss
  then have m: "map_of (evictList (core s)) key = None" by (simp add: item_of_def)
  show ?thesis using Get_locked_snd_frame(1)[OF miss(3)] by (simp add: lru_Add_absent(3)[OF m])
next
  case (hit v)
  then show ?thesis by (simp add: lru_Get_evictList)
next
  case (stale v)
  show ?thesis using Get_locked_snd_frame(1)[OF stale(5)] by (simp add: lru_Get_evictList)
qed

lemma lru_size_Del: "Del key s = Some (ok, s') \<Longrightarrow> lru_size (core s') = lru_size (core s)"
  by (auto simp: Del_def lru_Remove_def split: if_splits)

lemma lru_size_run: "run cs s = Some (rs, s') \<Longrightarrow> lru_size (core s') = lru_size (core s)"
proof (induction cs arbitrary: s rs)
  case Nil
  then show ?case by simp
next
  case (Cons c cs)
  show ?case
  proof (cases c)
    case (CallGet key fetch t50 t62 t67)
    with Cons.prems obtain r s1 rs1 where
      g: "Get key fetch t50 t62 t67 s = Some (r, s1)" and r: "run cs s1 = Some (rs1, s')"
      by (auto split: option.splits)
    show ?thesis using Cons.IH[OF r] lru_size_Get[OF g] by simp
  next
    case (CallDel key)
    with Cons.prems obtain ok s1 rs1 where
      g: "Del key s = Some (ok, s1)" and r: "run cs s1 = Some (rs1, s')"
      by (auto split: option.splits)
    show ?thesis using Cons.IH[OF r] lru_size_Del[OF g] by simp
  qed
qed

section \<open>Construction, removal and eviction\<close>

text \<open>
  Claim C8. \<^verbatim>\<open>NewInertiaLRU\<close> panics for every size \<open>\<le> 0\<close>; for every size
  \<open>\<ge> 1\<close> it returns a cache with that capacity and no entry, and after any sequence of
  \<^verbatim>\<open>Get\<close> and \<^verbatim>\<open>Del\<close> calls the core holds at most that many entries.
\<close>

theorem NewInertiaLRU_capacity:
  "(sz \<le> 0 \<longrightarrow>
      (\<exists>e. (NewInertiaLRU sz sTTL fTTL tgt onEv :: string + ('k, 'v::zero, 'e) state) = Inl e))
   \<and> (1 \<le> sz \<longrightarrow>
      (\<exists>s0. (NewInertiaLRU sz sTTL fTTL tgt onEv :: string + ('k, 'v::zero, 'e) state) = Inr s0
          \<and> lru_size (core s0) = nat sz \<and> evictList (core s0) = []
          \<and> (\<forall>cs rs s. run cs s0 = Some (rs, s) \<longrightarrow> length (evictList (core s)) \<le> nat sz)))"
proof (intro conjI impI)
  assume "sz \<le> 0"
  then show "\<exists>e. (NewInertiaLRU sz sTTL fTTL tgt onEv :: string + ('k, 'v, 'e) state) = Inl e"
    by (simp add: NewInertiaLRU_def NewLRU_def)
next
  assume sz: "1 \<le> sz"
  let ?s0 = "\<lparr>xlock = False, core = \<lparr>lru_size = nat sz, evictList = [], onEvict = onEv\<rparr>,
              successTTL = sTTL, failedTTL = fTTL, target = tgt,
              heap = (\<lambda>_. new_item), fresh = 0, evictions = [], fetched = 0\<rparr>
             :: ('k, 'v, 'e) state"
  have n: "NewInertiaLRU sz sTTL fTTL tgt onEv = Inr ?s0"
    using sz by (simp add: NewInertiaLRU_def NewLRU_def)
  have w: "wf_cache ?s0" using sz by (intro wf_cache_new) simp
  have "length (evictList (core s)) \<le> nat sz" if "run cs ?s0 = Some (rs, s)" for cs rs s
  proof -
    have "wf_cache s" using w that by (rule wf_run)
    moreover have "lru_size (core s) = nat sz" using lru_size_run[OF that] by simp
    ultimately show ?thesis by (simp add: wf_cache_def)
  qed
  with n show "\<exists>s0. (NewInertiaLRU sz sTTL fTTL tgt onEv :: string + ('k, 'v, 'e) state) = Inr s0
          \<and> lru_size (core s0) = nat sz \<and> evictList (core s0) = []
          \<and> (\<forall>cs rs s. run cs s0 = Some (rs, s) \<longrightarrow> length (evictList (core s)) \<le> nat sz)"
    by simp
qed

theorem NewInertiaLRU_capacity_witness:
  "(\<exists>e. (NewInertiaLRU 0 (ms 100) (ms 10) \<lparr>getHit = 0, getSuccess = 0, getFailed = 0\<rparr> True
          :: string + (string, int, string) state) = Inl e)
   \<and> NewInertiaLRU 2 (ms 100) (ms 10) \<lparr>getHit = 0, getSuccess = 0, getFailed = 0\<rparr> True
       = Inr (scenario 2)
   \<and> run [CallGet ''a'' (1, None) 0 0 0, CallGet ''b'' (2, None) 0 0 0,
           CallGet ''c'' (3, None) 0 0 0] (scenario 2)
       = Some ([GetResult 1 None, GetResult 2 None, GetResult 3 None],
               after [CallGet ''a'' (1, None) 0 0 0, CallGet ''b'' (2, None) 0 0 0,
                      CallGet ''c'' (3, None) 0 0 0] (scenario 2))
   \<and> length (evictList (core (after [CallGet ''a'' (1, None) 0 0 0, CallGet ''b'' (2, None) 0 0 0,
                                        CallGet ''c'' (3, None) 0 0 0] (scenario 2)))) \<le> 2"
proof -
  let ?t = "\<lparr>getHit = 0, getSuccess = 0, getFailed = 0\<rparr>"
  let ?cs = "[CallGet ''a'' (1::int, None :: string option) 0 0 0, CallGet ''b'' (2, None) 0 0 0,
              CallGet ''c'' (3, None) 0 0 0]"
  have r: "run ?cs (scenario 2)
             = Some ([GetResult 1 None, GetResult 2 None, GetResult 3 None], after ?cs (scenario 2))"
    by (simp add: eval_defs)
  have n: "NewInertiaLRU 2 (ms 100) (ms 10) ?t True = Inr (scenario 2)"
    by (simp add: NewInertiaLRU_def NewLRU_def scenario_def)
  have a: "\<exists>e. (NewInertiaLRU 0 (ms 100) (ms 10) ?t True :: string + (string, int, string) state) = Inl e"
    using NewInertiaLRU_capacity[of 0 "ms 100" "ms 10" ?t True, where ?'k = string and ?'v = int and ?'e = string]
    by simp
  obtain s0 :: "(string, int, string) state" where
    s0: "NewInertiaLRU 2 (ms 100) (ms 10) ?t True = Inr s0" and
    b: "\<forall>cs rs s. run cs s0 = Some (rs, s) \<longrightarrow> length (evictList (core s)) \<le> nat 2"
    using NewInertiaLRU_capacity[of 2 "ms 100" "ms 10" ?t True, where ?'k = string and ?'v = int and ?'e = string]
    by auto
  have "s0 = scenario 2" using s0 n by simp
  with b r have "length (evictList (core (after ?cs (scenario 2)))) \<le> 2"
    by (metis nat_numeral)
  with a n r show ?thesis by blast
qed

text \<open>
  Claim C3. \<^verbatim>\<open>Del\<close> removes the key when it is present, leaves every other key, and
  returns whether the key was present before; it makes no call of the eviction callback
  (and touches no item, no counter and no fetch). A call of the callback during
  \<^verbatim>\<open>Get\<close> happens only when the key is absent, a callback is configured and the core
  is full, and then there is exactly one.
\<close>

theorem Del_removes_without_callback:
  "(\<not> xlock s \<longrightarrow>
      (\<exists>s'. Del key s = Some (item_of s key \<noteq> None, s')
          \<and> item_of s' key = None
          \<and> (\<forall>k. k \<noteq> key \<longrightarrow> item_of s' k = item_of s k)
          \<and> evictions s' = evictions s
          \<and> heap s' = heap s \<and> target s' = target s \<and> fetched s' = fetched s))
   \<and> (Get key fetch t50 t62 t67 s = Some (r, s1) \<and> evictions s1 \<noteq> evictions s \<longrightarrow>
        item_of s key = None \<and> onEvict (core s)
        \<and> lru_size (core s) \<le> length (evictList (core s))
        \<and> length (evictions s1) = Suc (length (evictions s)))"
proof (rule conjI; rule impI)
  assume x: "\<not> xlock s"
  show "\<exists>s'. Del key s = Some (item_of s key \<noteq> None, s')
          \<and> item_of s' key = None
          \<and> (\<forall>k. k \<noteq> key \<longrightarrow> item_of s' k = item_of s k)
          \<and> evictions s' = evictions s
          \<and> heap s' = heap s \<and> target s' = target s \<and> fetched s' = fetched s"
    unfolding Del_eq[OF x] by (simp add: item_of_def map_of_filter_key)
next
  assume a: "Get key fetch t50 t62 t67 s = Some (r, s1) \<and> evictions s1 \<noteq> evictions s"
  then have g: "Get key fetch t50 t62 t67 s = Some (r, s1)" and e: "evictions s1 \<noteq> evictions s"
    by simp_all
  from g show "item_of s key = None \<and> onEvict (core s)
        \<and> lru_size (core s) \<le> length (evictList (core s))
        \<and> length (evictions s1) = Suc (length (evictions s))"
  proof (cases rule: Get_cases)
    case miss
    then have m: "map_of (evictList (core s)) key = None" by (simp add: item_of_def)
    have "evictions s1 = evictions s @
            map (\<lambda>(k, a). (k, val (((heap s)(fresh s := new_item)) a)))
              (snd (lru_Add key (fresh s) (core s)))"
      using Get_locked_snd_frame(3)[OF miss(3)] by simp
    with e miss(2) show ?thesis
      by (simp add: lru_Add_absent(2)[OF m] split: if_splits)
  next
    case (hit v)
    with e show ?thesis by simp
  next
    case (stale v)
    with e Get_locked_snd_frame(3)[OF stale(5)] show ?thesis by simp
  qed
qed

text \<open>
  Claim C7. A \<^verbatim>\<open>Get\<close> on a present key moves that key to the front of the recency
  order, the other keys keeping their order, with no call of the callback. A
  \<^verbatim>\<open>Get\<close> on an absent key inserts it at the front; when the core is full (the key is
  the \<open>N+1\<close>st) the entry at the back, the least recently used, is evicted, and the
  configured callback is called exactly once, with that entry's key and the value of
  its item. The witness is the promotion scenario of the specification: capacity 2 and
  \<open>Get a, Get b, Get a, Get c\<close> evict \<open>b\<close>.
\<close>

theorem Get_promotes_and_evicts_lru:
  assumes "wf_cache s" and "Get key fetch t50 t62 t67 s = Some (r, s')"
  shows "(\<forall>v. item_of s key = Some v \<longrightarrow>
            evictList (core s') = (key, v) # filter (\<lambda>p. fst p \<noteq> key) (evictList (core s))
            \<and> evictions s' = evictions s)
       \<and> (item_of s key = None \<and> length (evictList (core s)) < lru_size (core s) \<longrightarrow>
            evictList (core s') = (key, fresh s) # evictList (core s)
            \<and> evictions s' = evictions s)
       \<and> (item_of s key = None \<and> length (evictList (core s)) = lru_size (core s) \<longrightarrow>
            evictList (core s') = (key, fresh s) # butlast (evictList (core s))
            \<and> evictions s' = evictions s @
                  (if onEvict (core s)
                   then [(fst (last (evictList (core s))),
                          val (heap s (snd (last (evictList (core s))))))]
                   else []))"
  using assms(2)
proof (cases rule: Get_cases)
  case miss
  then have m: "map_of (evictList (core s)) key = None" by (simp add: item_of_def)
  have c: "core s' = fst (lru_Add key (fresh s) (core s))"
    using Get_locked_snd_frame(1)[OF miss(3)] by simp
  have e: "evictions s' = evictions s @
            map (\<lambda>(k, a). (k, val (((heap s)(fresh s := new_item)) a)))
              (snd (lru_Add key (fresh s) (core s)))"
    using Get_locked_snd_frame(3)[OF miss(3)] by simp
  have ne: "evictList (core s) \<noteq> []" if "length (evictList (core s)) = lru_size (core s)"
    using assms(1) that by (auto simp: wf_cache_def)
  have "last (evictList (core s)) \<in> set (evictList (core s))"
    if "length (evictList (core s)) = lru_size (core s)"
    using ne[OF that] by simp
  then have lt: "snd (last (evictList (core s))) \<noteq> fresh s"
    if "length (evictList (core s)) = lru_size (core s)"
    using assms(1) that by (auto simp: wf_cache_def list_all_iff)
  show ?thesis
    using miss(2) ne lt by (auto simp: c e lru_Add_absent[OF m] split_beta)
next
  case (hit v)
  then have m: "map_of (evictList (core s)) key = Some v" by (simp add: item_of_def)
  from hit show ?thesis by (simp add: lru_Get_evictList(1)[OF m])
next
  case (stale v)
  then have m: "map_of (evictList (core s)) key = Some v" by (simp add: item_of_def)
  from stale(2) Get_locked_snd_frame(1,3)[OF stale(5)] show ?thesis
    by (simp add: lru_Get_evictList(1)[OF m])
qed

theorem Del_removes_without_callback_witness:
  "\<not> xlock (after [CallGet ''a'' (1, None) 0 0 0, CallGet ''b'' (2, None) 0 0 0] (scenario 2))
   \<and> (\<exists>s'. Del ''a'' (after [CallGet ''a'' (1, None) 0 0 0, CallGet ''b'' (2, None) 0 0 0] (scenario 2))
              = Some (True, s')
            \<and> item_of s' ''a'' = None \<and> item_of s' ''b'' = Some 1 \<and> evictions s' = [])
   \<and> Get ''c'' (3, None) 0 0 0
         (after [CallGet ''a'' (1, None) 0 0 0, CallGet ''b'' (2, None) 0 0 0] (scenario 2))
       = Some ((3, None),
               after [CallGet ''a'' (1, None) 0 0 0, CallGet ''b'' (2, None) 0 0 0,
                      CallGet ''c'' (3, None) 0 0 0] (scenario 2))
   \<and> evictions (after [CallGet ''a'' (1, None) 0 0 0, CallGet ''b'' (2, None) 0 0 0,
                        CallGet ''c'' (3, None) 0 0 0] (scenario 2)) = [(''a'', 1)]
   \<and> evictions (after [CallGet ''a'' (1, None) 0 0 0, CallGet ''b'' (2, None) 0 0 0] (scenario 2)) = []
   \<and> item_of (after [CallGet ''a'' (1, None) 0 0 0, CallGet ''b'' (2, None) 0 0 0] (scenario 2)) ''c''
       = None
   \<and> lru_size (core (after [CallGet ''a'' (1, None) 0 0 0, CallGet ''b'' (2, None) 0 0 0] (scenario 2)))
       \<le> length (evictList (core (after [CallGet ''a'' (1, None) 0 0 0,
                                             CallGet ''b'' (2, None) 0 0 0] (scenario 2))))"
proof -
  let ?S = "after [CallGet ''a'' (1, None) 0 0 0, CallGet ''b'' (2, None) 0 0 0] (scenario 2)"
  let ?S' = "after [CallGet ''a'' (1, None) 0 0 0, CallGet ''b'' (2, None) 0 0 0,
                    CallGet ''c'' (3, None) 0 0 0] (scenario 2)"
  have x: "\<not> xlock ?S" by (simp add: eval_defs)
  have i: "item_of ?S ''a'' = Some 0" "item_of ?S ''b'' = Some 1" "evictions ?S = []"
    by (simp_all add: eval_defs)
  have g: "Get ''c'' (3, None) 0 0 0 ?S = Some ((3, None), ?S')" by (simp add: eval_defs)
  have e: "evictions ?S' = [(''a'', 1)]" by (simp add: eval_defs)
  obtain s' where s': "Del ''a'' ?S = Some (item_of ?S ''a'' \<noteq> None, s')"
    "item_of s' ''a'' = None" "\<forall>k. k \<noteq> ''a'' \<longrightarrow> item_of s' k = item_of ?S k"
    "evictions s' = evictions ?S"
    using Del_removes_without_callback[of ?S "''a''" "(3, None)" 0 0 0 "(3, None)" ?S',
        THEN conjunct1, rule_format, OF x]
    by blast
  have "item_of s' ''b'' = item_of ?S ''b''" using s'(3) by simp
  with s' i have d: "\<exists>s'. Del ''a'' ?S = Some (True, s')
            \<and> item_of s' ''a'' = None \<and> item_of s' ''b'' = Some 1 \<and> evictions s' = []"
    by auto
  have "item_of ?S ''c'' = None \<and> lru_size (core ?S) \<le> length (evictList (core ?S))"
    using Del_removes_without_callback[of ?S "''c''" "(3, None)" 0 0 0 "(3, None)" ?S'] g e i
    by simp
  with x d g e i show ?thesis by blast
qed

theorem Get_promotes_and_evicts_lru_witness:
  "wf_cache (after [CallGet ''a'' (1, None) 0 0 0, CallGet ''b'' (2, None) 0 0 0,
                    CallGet ''a'' (5, None) 0 0 0] (scenario 2))
   \<and> Get ''c'' (3, None) 0 0 0
         (after [CallGet ''a'' (1, None) 0 0 0, CallGet ''b'' (2, None) 0 0 0,
                 CallGet ''a'' (5, None) 0 0 0] (scenario 2))
       = Some ((3, None),
               after [CallGet ''a'' (1, None) 0 0 0, CallGet ''b'' (2, None) 0 0 0,
                      CallGet ''a'' (5, None) 0 0 0, CallGet ''c'' (3, None) 0 0 0] (scenario 2))
   \<and> evictList (core (after [CallGet ''a'' (1, None) 0 0 0, CallGet ''b'' (2, None) 0 0 0,
                              CallGet ''a'' (5, None) 0 0 0] (scenario 2)))
       = [(''a'', 0), (''b'', 1)]
   \<and> evictList (core (after [CallGet ''a'' (1, None) 0 0 0, CallGet ''b'' (2, None) 0 0 0,
                              CallGet ''a'' (5, None) 0 0 0, CallGet ''c'' (3, None) 0 0 0]
                         (scenario 2)))
       = [(''c'', 2), (''a'', 0)]
   \<and> evictions (after [CallGet ''a'' (1, None) 0 0 0, CallGet ''b'' (2, None) 0 0 0,
                        CallGet ''a'' (5, None) 0 0 0, CallGet ''c'' (3, None) 0 0 0] (scenario 2))
       = [(''b'', 2)]"
proof -
  let ?S = "after [CallGet ''a'' (1, None) 0 0 0, CallGet ''b'' (2, None) 0 0 0,
                   CallGet ''a'' (5, None) 0 0 0] (scenario 2)"
  let ?S' = "after [CallGet ''a'' (1, None) 0 0 0, CallGet ''b'' (2, None) 0 0 0,
                    CallGet ''a'' (5, None) 0 0 0, CallGet ''c'' (3, None) 0 0 0] (scenario 2)"
  have w: "wf_cache ?S" by (simp add: eval_defs)
  have g: "Get ''c'' (3, None) 0 0 0 ?S = Some ((3, None), ?S')" by (simp add: eval_defs)
  have i: "item_of ?S ''c'' = None" "length (evictList (core ?S)) = lru_size (core ?S)"
    "evictList (core ?S) = [(''a'', 0), (''b'', 1)]" "onEvict (core ?S)" "evictions ?S = []"
    "fresh ?S = 2" "val (heap ?S 1) = 2"
    by (simp_all add: eval_defs)
  from Get_promotes_and_evicts_lru[OF w g] w g i show ?thesis by simp
qed

lemma map_of_butlast_Some:
  "map_of (butlast xs) k = Some v \<Longrightarrow> distinct (map fst xs) \<Longrightarrow> map_of xs k = Some v"
proof -
  assume a: "map_of (butlast xs) k = Some v" and d: "distinct (map fst xs)"
  from a have "(k, v) \<in> set (butlast xs)" by (rule map_of_SomeD)
  then have "(k, v) \<in> set xs" by (rule in_set_butlastD)
  with d show ?thesis by simp
qed

lemma item_of_Get:
  assumes "wf_cache s" "Get k fetch t50 t62 t67 s = Some (r, s')" "item_of s' k' = Some a"
  shows "item_of s k' = Some a \<or> (k' = k \<and> item_of s k = None \<and> a = fresh s)"
  using assms(2)
proof (cases rule: Get_cases)
  case miss
  then have m: "map_of (evictList (core s)) k = None" by (simp add: item_of_def)
  let ?l = "(k, fresh s) # evictList (core s)"
  have d: "distinct (map fst ?l)"
    using assms(1) m by (simp add: wf_cache_def map_of_eq_None_iff)
  have c: "core s' = fst (lru_Add k (fresh s) (core s))"
    using Get_locked_snd_frame(1)[OF miss(3)] by simp
  have "map_of ?l k' = Some a"
  proof (cases "lru_size (core s) \<le> length (evictList (core s))")
    case True
    then have "map_of (butlast ?l) k' = Some a"
      using assms(3) by (simp add: item_of_def c lru_Add_absent(1)[OF m])
    then show ?thesis using d by (rule map_of_butlast_Some)
  next
    case False
    then show ?thesis using assms(3) by (simp add: item_of_def c lru_Add_absent(1)[OF m])
  qed
  with miss(2) show ?thesis by (auto simp: item_of_def split: if_splits)
next
  case (hit v)
  then have m: "map_of (evictList (core s)) k = Some v" by (simp add: item_of_def)
  from assms(3) hit show ?thesis
    by (auto simp: item_of_def lru_Get_evictList(1)[OF m] map_of_filter_key split: if_splits)
next
  case (stale v)
  then have m: "map_of (evictList (core s)) k = Some v" by (simp add: item_of_def)
  from assms(3) stale(2) Get_locked_snd_frame(1)[OF stale(5)] show ?thesis
    by (auto simp: item_of_def lru_Get_evictList(1)[OF m] map_of_filter_key split: if_splits)
qed

lemma heap_Get_other:
  assumes "Get k fetch t50 t62 t67 s = Some (r, s')" "a < fresh s" "item_of s k \<noteq> Some a"
  shows "heap s' a = heap s a"
  using assms(1)
proof (cases rule: Get_cases)
  case miss
  from assms(2) have "a \<noteq> fresh s" by simp
  then show ?thesis using Get_locked_snd_frame(7)[OF miss(3), of a] by simp
next
  case (hit v)
  then show ?thesis by simp
next
  case (stale v)
  with assms(3) have "a \<noteq> v" by auto
  then show ?thesis using Get_locked_snd_frame(7)[OF stale(5), of a] by simp
qed

lemma Get_unchanged:
  assumes "Get k fetch t50 t62 t67 s = Some (r, s')"
  shows "fresh s \<le> fresh s'" and "\<not> xlock s'"
    and "successTTL s' = successTTL s" and "failedTTL s' = failedTTL s"
proof -
  from assms have "fresh s \<le> fresh s' \<and> \<not> xlock s'
      \<and> successTTL s' = successTTL s \<and> failedTTL s' = failedTTL s"
  proof (cases rule: Get_cases)
    case miss
    show ?thesis using miss(1) Get_locked_snd_frame(2,4,5,6)[OF miss(3)] by simp
  next
    case (hit v)
    then show ?thesis by simp
  next
    case (stale v)
    show ?thesis using stale(1) Get_locked_snd_frame(2,4,5,6)[OF stale(5)] by simp
  qed
  then show "fresh s \<le> fresh s'" and "\<not> xlock s'"
    and "successTTL s' = successTTL s" and "failedTTL s' = failedTTL s"
    by simp_all
qed

lemma item_of_inj:
  assumes "wf_cache s" "item_of s k = Some v" "item_of s k' = Some v"
  shows "k = k'"
proof -
  have d: "distinct (map snd (evictList (core s)))" using assms(1) by (simp add: wf_cache_def)
  have "(k, v) \<in> set (evictList (core s))" "(k', v) \<in> set (evictList (core s))"
    using assms(2,3) by (auto simp: item_of_def dest: map_of_SomeD)
  with d show ?thesis by (metis eq_key_imp_eq_value distinct_map map_of_SomeD
        inj_on_def prod.inject snd_conv)
qed

lemma item_of_allocated:
  assumes "wf_cache s" "item_of s k = Some v"
  shows "v < fresh s"
proof -
  have "(k, v) \<in> set (evictList (core s))"
    using assms(2) by (auto simp: item_of_def dest: map_of_SomeD)
  then show ?thesis using assms(1) by (auto simp: wf_cache_def list_all_iff)
qed

lemma item_of_Del:
  assumes "Del k s = Some (ok, s')"
  shows "item_of s' k' = (if k' = k then None else item_of s k')" and "heap s' = heap s"
    and "fresh s' = fresh s" and "\<not> xlock s'" and "fetched s' = fetched s"
proof -
  have x: "\<not> xlock s" using assms by (auto simp: Del_def split: if_splits)
  from assms show "item_of s' k' = (if k' = k then None else item_of s k')" and "heap s' = heap s"
    and "fresh s' = fresh s" and "\<not> xlock s'" and "fetched s' = fetched s"
    unfolding Del_eq[OF x] using x by (auto simp: item_of_def map_of_filter_key)
qed

lemma Get_refetch:
  assumes "\<forall>v. item_of s key = Some v \<longrightarrow> expires (heap s v) \<le> UnixMilli t50"
    and "t50 \<le> t62" and "0 \<le> t62"
    and "Get key fetch t50 t62 t67 s = Some (r, s')"
  shows "r = fetch \<and> fetched s' = Suc (fetched s)"
  using assms(4)
proof (cases rule: Get_cases)
  case miss
  let ?s3 = "set_lock (fresh s) True
               (cb (snd (lru_Add key (fresh s) (core s)))
                  (s\<lparr>heap := (heap s)(fresh s := new_item), fresh := Suc (fresh s),
                     core := fst (lru_Add key (fresh s) (core s))\<rparr>))"
  have "expires (heap ?s3 (fresh s)) = 0" by (simp add: new_item_def)
  moreover have "0 \<le> UnixMilli t62" using assms(3) by (rule UnixMilli_nonneg)
  ultimately have nf: "\<not> UnixMilli t62 < expires (heap ?s3 (fresh s))" by simp
  from miss(3) show ?thesis unfolding Get_locked_fetch[OF nf] by simp
next
  case (hit v)
  with assms(1) show ?thesis by auto
next
  case (stale v)
  let ?s1 = "set_lock v True (s\<lparr>core := snd (lru_Get key (core s))\<rparr>)"
  have "expires (heap ?s1 v) \<le> UnixMilli t50" using assms(1) stale(2) by simp
  moreover have "UnixMilli t50 \<le> UnixMilli t62" using assms(2) by (rule UnixMilli_mono)
  ultimately have nf: "\<not> UnixMilli t62 < expires (heap ?s1 v)" by simp
  from stale(5) show ?thesis unfolding Get_locked_fetch[OF nf] by simp
qed

lemma expired_Get_other:
  assumes "wf_cache s" and "\<forall>v. item_of s key = Some v \<longrightarrow> expires (heap s v) \<le> E"
    and "Get k fetch t50 t62 t67 s = Some (r, s')" and "k \<noteq> key"
  shows "\<forall>v. item_of s' key = Some v \<longrightarrow> expires (heap s' v) \<le> E"
proof (intro allI impI)
  fix v assume v: "item_of s' key = Some v"
  have i: "item_of s key = Some v"
    using item_of_Get[OF assms(1,3) v] assms(4) by simp
  have "v < fresh s" using assms(1) i by (rule item_of_allocated)
  moreover have "item_of s k \<noteq> Some v"
    using item_of_inj[OF assms(1) _ i] assms(4) by auto
  ultimately have "heap s' v = heap s v" using heap_Get_other[OF assms(3)] by simp
  with assms(2) i show "expires (heap s' v) \<le> E" by simp
qed

lemma expired_run:
  assumes "wf_cache s" and "\<forall>v. item_of s key = Some v \<longrightarrow> expires (heap s v) \<le> E"
    and "run cs s = Some (rs, s')" and "\<forall>c\<in>set cs. \<not> is_Get_of key c"
  shows "\<forall>v. item_of s' key = Some v \<longrightarrow> expires (heap s' v) \<le> E"
  using assms
proof (induction cs arbitrary: s rs)
  case Nil
  then show ?case by simp
next
  case (Cons c cs)
  show ?case
  proof (cases c)
    case (CallGet k fetch t50 t62 t67)
    with Cons.prems(3) obtain r s1 rs1 where
      g: "Get k fetch t50 t62 t67 s = Some (r, s1)" and r: "run cs s1 = Some (rs1, s')"
      by (auto split: option.splits)
    have k: "k \<noteq> key" using Cons.prems(4) CallGet by simp
    have w: "wf_cache s1" using Cons.prems(1) g by (rule wf_Get)
    have e: "\<forall>v. item_of s1 key = Some v \<longrightarrow> expires (heap s1 v) \<le> E"
      using Cons.prems(1,2) g k by (rule expired_Get_other)
    show ?thesis using Cons.IH[OF w e r] Cons.prems(4) by simp
  next
    case (CallDel k)
    with Cons.prems(3) obtain ok s1 rs1 where
      g: "Del k s = Some (ok, s1)" and r: "run cs s1 = Some (rs1, s')"
      by (auto split: option.splits)
    have w: "wf_cache s1" using Cons.prems(1) g by (rule wf_Del)
    have e: "\<forall>v. item_of s1 key = Some v \<longrightarrow> expires (heap s1 v) \<le> E"
      using Cons.prems(2) item_of_Del(1,2)[OF g] by (auto split: if_splits)
    show ?thesis using Cons.IH[OF w e r] Cons.prems(4) by simp
  qed
qed

section \<open>Time to live\<close>

text \<open>
  Claim C10. A TTL \<open>\<le> 0\<close> disables caching. When a \<^verbatim>\<open>Get\<close> has called
  \<open>fetch\<close> and the TTL of the outcome (\<open>successTTL\<close> for a nil error,
  \<open>failedTTL\<close> otherwise) is \<open>\<le> 0\<close>, the \<open>expires\<close> it stores is at most the
  millisecond count of every later reading of the clock; and the next \<^verbatim>\<open>Get\<close> of the
  key, after any calls that are not a \<^verbatim>\<open>Get\<close> of that key, calls \<open>fetch\<close> again
  and returns what it returns. The clock is read after the epoch and does not run backwards.
\<close>

theorem nonpositive_ttl_refetch:
  assumes "wf_cache s"
    and "Get key fetch t50 t62 t67 s = Some (r, s1)" and "fetched s1 \<noteq> fetched s"
    and "(if snd fetch = None then successTTL s else failedTTL s) \<le> 0"
    and "run cs s1 = Some (rs, s2)" and "\<forall>c\<in>set cs. \<not> is_Get_of key c"
    and "0 \<le> t67" and "t67 \<le> t50'" and "t50' \<le> t62'"
    and "Get key fetch' t50' t62' t67' s2 = Some (r', s3)"
  shows "(\<exists>v. item_of s1 key = Some v \<and> (\<forall>t\<ge>t67. expires (heap s1 v) \<le> UnixMilli t))
         \<and> r' = fetch' \<and> fetched s3 = Suc (fetched s2)"
proof -
  let ?ttl = "if snd fetch = None then successTTL s else failedTTL s"
  have sz: "0 < lru_size (core s)" using assms(1) by (simp add: wf_cache_def)
  from Get_fetched[OF assms(2,3)] sz obtain v where
    v: "item_of s1 key = Some v" and e: "expires (heap s1 v) = UnixMilli (Add t67 ?ttl)"
    by auto
  have "Add t67 ?ttl \<le> t67" using assms(4) by (simp add: Add_def)
  then have le: "expires (heap s1 v) \<le> UnixMilli t67" unfolding e by (rule UnixMilli_mono)
  have later: "expires (heap s1 v) \<le> UnixMilli t" if "t67 \<le> t" for t
    using le UnixMilli_mono[OF that] by simp
  have w1: "wf_cache s1" using assms(1,2) by (rule wf_Get)
  have "\<forall>v. item_of s1 key = Some v \<longrightarrow> expires (heap s1 v) \<le> UnixMilli t67"
    using v le by simp
  from expired_run[OF w1 this assms(5,6)]
  have "\<forall>v. item_of s2 key = Some v \<longrightarrow> expires (heap s2 v) \<le> UnixMilli t50'"
    using UnixMilli_mono[OF assms(8)] by fastforce
  moreover have "0 \<le> t62'" using assms(7,8,9) by simp
  ultimately have "r' = fetch' \<and> fetched s3 = Suc (fetched s2)"
    using assms(9,10) by (intro Get_refetch)
  with v later show ?thesis by blast
qed

theorem nonpositive_ttl_refetch_witness:
  "wf_cache ((scenario 2)\<lparr>successTTL := 0\<rparr>)
   \<and> Get ''a'' (1, None) 0 0 (ms 1) ((scenario 2)\<lparr>successTTL := 0\<rparr>)
       = Some ((1, None), after [CallGet ''a'' (1, None) 0 0 (ms 1)] ((scenario 2)\<lparr>successTTL := 0\<rparr>))
   \<and> fetched (after [CallGet ''a'' (1, None) 0 0 (ms 1)] ((scenario 2)\<lparr>successTTL := 0\<rparr>)) = 1
   \<and> run [CallDel ''b'']
          (after [CallGet ''a'' (1, None) 0 0 (ms 1)] ((scenario 2)\<lparr>successTTL := 0\<rparr>))
       = Some ([DelResult False],
               after [CallGet ''a'' (1, None) 0 0 (ms 1), CallDel ''b'']
                 ((scenario 2)\<lparr>successTTL := 0\<rparr>))
   \<and> Get ''a'' (2, None) (ms 1) (ms 1) (ms 1)
         (after [CallGet ''a'' (1, None) 0 0 (ms 1), CallDel ''b''] ((scenario 2)\<lparr>successTTL := 0\<rparr>))
       = Some ((2, None),
               after [CallGet ''a'' (1, None) 0 0 (ms 1), CallDel ''b'',
                      CallGet ''a'' (2, None) (ms 1) (ms 1) (ms 1)]
                 ((scenario 2)\<lparr>successTTL := 0\<rparr>))
   \<and> fetched (after [CallGet ''a'' (1, None) 0 0 (ms 1), CallDel ''b'',
                      CallGet ''a'' (2, None) (ms 1) (ms 1) (ms 1)]
                 ((scenario 2)\<lparr>successTTL := 0\<rparr>)) = 2"
proof -
  let ?s = "(scenario 2)\<lparr>successTTL := 0\<rparr>"
  let ?s1 = "after [CallGet ''a'' (1, None) 0 0 (ms 1)] ?s"
  let ?s2 = "after [CallGet ''a'' (1, None) 0 0 (ms 1), CallDel ''b''] ?s"
  let ?s3 = "after [CallGet ''a'' (1, None) 0 0 (ms 1), CallDel ''b'',
                    CallGet ''a'' (2, None) (ms 1) (ms 1) (ms 1)] ?s"
  have w: "wf_cache ?s" by (simp add: eval_defs)
  have g1: "Get ''a'' (1, None) 0 0 (ms 1) ?s = Some ((1, None), ?s1)" by (simp add: eval_defs)
  have f1: "fetched ?s1 \<noteq> fetched ?s" "fetched ?s1 = 1" "fetched ?s2 = 1"
    by (simp_all add: eval_defs)
  have ttl: "(if snd (1::int, None :: string option) = None then successTTL ?s else failedTTL ?s) \<le> 0"
    by (simp add: eval_defs)
  have r: "run [CallDel ''b''] ?s1 = Some ([DelResult False], ?s2)" by (simp add: eval_defs)
  have n: "\<forall>c\<in>set [CallDel ''b'' :: (string, int, string) call]. \<not> is_Get_of ''a'' c" by simp
  have t: "(0::int) \<le> ms 1" "ms 1 \<le> ms 1" by (simp_all add: ms_def)
  have g2: "Get ''a'' (2, None) (ms 1) (ms 1) (ms 1) ?s2 = Some ((2, None), ?s3)"
    by (simp add: eval_defs)
  from nonpositive_ttl_refetch[OF w g1 f1(1) ttl r n t(1) t(2) t(2) g2] f1
  have "fetched ?s3 = 2" by simp
  with w g1 f1 r g2 show ?thesis by blast
qed

lemma kept_Get:
  assumes "kept key v i s" and "\<not> lock i" and "expires i \<noteq> 0"
    and "Get k fetch t50 t62 t67 s = Some (r, s')" and "UnixMilli t50 < expires i"
  shows "kept key v i s'"
proof -
  have w: "wf_cache s" and vf: "v < fresh s" and h: "heap s v = i"
    and inj: "\<And>k. item_of s k = Some v \<Longrightarrow> k = key"
    using assms(1) by (simp_all add: kept_def)
  have w': "wf_cache s'" using w assms(4) by (rule wf_Get)
  have x': "\<not> xlock s'" using assms(4) by (rule Get_unchanged(2))
  have vf': "v < fresh s'" using vf Get_unchanged(1)[OF assms(4)] by simp
  have h': "heap s' v = i"
  proof (cases "item_of s k = Some v")
    case False
    with h heap_Get_other[OF assms(4) vf] show ?thesis by simp
  next
    case True
    from assms(4) show ?thesis
    proof (cases rule: Get_cases)
      case miss
      with True show ?thesis by simp
    next
      case (hit a)
      with h show ?thesis by simp
    next
      case (stale a)
      with True have "a = v" by simp
      with stale(4) h assms(3,5) show ?thesis by simp
    qed
  qed
  have inj': "k' = key" if "item_of s' k' = Some v" for k'
    using item_of_Get[OF w assms(4) that] vf inj by auto
  from w' x' vf' h' inj' show ?thesis by (simp add: kept_def)
qed

lemma kept_Del:
  assumes "kept key v i s" and "Del k s = Some (ok, s')"
  shows "kept key v i s'"
proof -
  have w: "wf_cache s" using assms(1) by (simp add: kept_def)
  have "wf_cache s'" using w assms(2) by (rule wf_Del)
  then show ?thesis
    using assms(1) item_of_Del[OF assms(2)] by (auto simp: kept_def split: if_splits)
qed

lemma kept_run:
  assumes "kept key v i s" and "\<not> lock i" and "expires i \<noteq> 0"
    and "run cs s = Some (rs, s')" and "\<forall>c\<in>set cs. reads_before (expires i) c"
  shows "kept key v i s'"
  using assms(1,4,5)
proof (induction cs arbitrary: s rs)
  case Nil
  then show ?case by simp
next
  case (Cons c cs)
  show ?case
  proof (cases c)
    case (CallGet k fetch t50 t62 t67)
    with Cons.prems(2) obtain r s1 rs1 where
      g: "Get k fetch t50 t62 t67 s = Some (r, s1)" and r: "run cs s1 = Some (rs1, s')"
      by (auto split: option.splits)
    have "UnixMilli t50 < expires i" using Cons.prems(3) CallGet by simp
    have "kept key v i s1"
      using Cons.prems(1) assms(2,3) g \<open>UnixMilli t50 < expires i\<close> by (rule kept_Get)
    moreover note r
    moreover have "\<forall>c\<in>set cs. reads_before (expires i) c" using Cons.prems(3) by simp
    ultimately show ?thesis by (rule Cons.IH)
  next
    case (CallDel k)
    with Cons.prems(2) obtain ok s1 rs1 where
      g: "Del k s = Some (ok, s1)" and r: "run cs s1 = Some (rs1, s')"
      by (auto split: option.splits)
    from Cons.prems(1) g have "kept key v i s1" by (rule kept_Del)
    moreover note r
    moreover have "\<forall>c\<in>set cs. reads_before (expires i) c" using Cons.prems(3) by simp
    ultimately show ?thesis by (rule Cons.IH)
  qed
qed

text \<open>
  Claim C4, amended. Let a \<^verbatim>\<open>Get\<close> of \<open>key\<close> call \<open>fetch\<close> and store its pair
  with \<open>expires = E\<close>, the millisecond count of the reading of line 67 or 70 plus the
  TTL of the outcome, \<open>E \<noteq> 0\<close>. Then, after any calls whose \<^verbatim>\<open>Get\<close>s read at
  line 50 a millisecond count below \<open>E\<close>, as long as the core still maps \<open>key\<close> to
  that item (no \<^verbatim>\<open>Del\<close> of the key and no eviction in between), a
  \<^verbatim>\<open>Get\<close> of \<open>key\<close> that reads a millisecond count below \<open>E\<close> returns the
  stored pair, value or error, calls \<^verbatim>\<open>IncrGetHit\<close> and does not call its
  \<open>fetch\<close>.
\<close>

theorem fresh_entry_served:
  assumes "wf_cache s"
    and "Get key fetch t50 t62 t67 s = Some (r, s1)" and "fetched s1 \<noteq> fetched s"
    and "E = UnixMilli (Add t67 (if snd fetch = None then successTTL s else failedTTL s))"
    and "E \<noteq> 0"
    and "run cs s1 = Some (rs, s2)" and "\<forall>c\<in>set cs. reads_before E c"
    and "item_of s2 key = item_of s1 key"
    and "UnixMilli t50' < E"
  shows "\<exists>s3. Get key fetch' t50' t62' t67' s2 = Some (fetch, s3)
           \<and> fetched s3 = fetched s2 \<and> target s3 = IncrGetHit (target s2)"
proof -
  have sz: "0 < lru_size (core s)" using assms(1) by (simp add: wf_cache_def)
  from Get_fetched[OF assms(2,3)] sz assms(4) obtain v where
    v: "item_of s1 key = Some v" and
    h: "heap s1 v = \<lparr>lock = False, expires = E, err = snd fetch, val = fst fetch\<rparr>"
    by auto
  let ?i = "\<lparr>lock = False, expires = E, err = snd fetch, val = fst fetch\<rparr>"
  have w1: "wf_cache s1" using assms(1,2) by (rule wf_Get)
  have "kept key v ?i s1"
    using w1 Get_unchanged(2)[OF assms(2)] item_of_allocated[OF w1 v] h
      item_of_inj[OF w1 _ v]
    by (auto simp: kept_def)
  moreover have "\<not> lock ?i" "expires ?i \<noteq> 0" using assms(5) by simp_all
  moreover note assms(6)
  moreover have "\<forall>c\<in>set cs. reads_before (expires ?i) c" using assms(7) by simp
  ultimately have k2: "kept key v ?i s2" by (rule kept_run)
  then have x: "\<not> xlock s2" and h2: "heap s2 v = ?i" by (simp_all add: kept_def)
  have i2: "item_of s2 key = Some v" using assms(8) v by simp
  have "Get key fetch' t50' t62' t67' s2 =
          Some ((val (heap s2 v), err (heap s2 v)),
                s2\<lparr>core := snd (lru_Get key (core s2)), target := IncrGetHit (target s2)\<rparr>)"
    using x i2 h2 assms(5,9) by (intro Get_hit) simp_all
  then show ?thesis using h2 by simp
qed

text \<open>
  Claim C4 as stated fails. With capacity 1, \<open>Get a\<close>, \<open>Get b\<close>, \<open>Get a\<close> within
  2 ms: the second \<open>Get a\<close> calls its \<open>fetch\<close> and returns 3, not the 1 stored less
  than \<open>successTTL\<close> before, since \<open>b\<close> evicted \<open>a\<close>. And with the pair stored at
  0.5 ms (\<open>expires = 100\<close>), a \<open>Get\<close> at 100.2 ms, 99.7 ms later, calls its
  \<open>fetch\<close>: the comparison is on whole milliseconds.
\<close>

theorem freshness_counterexample:
  "map_option fst
     (run [CallGet ''a'' (1, None) 0 0 0, CallGet ''b'' (2, None) (ms 1) (ms 1) (ms 1),
           CallGet ''a'' (3, None) (ms 2) (ms 2) (ms 2)] (scenario 1))
     = Some [GetResult 1 None, GetResult 2 None, GetResult 3 None]
   \<and> ms 2 - 0 < successTTL (scenario 1)
   \<and> map_option fst
       (run [CallGet ''a'' (1, None) 500000 500000 500000,
             CallGet ''a'' (3, None) 100200000 100200000 100200000] (scenario 2))
     = Some [GetResult 1 None, GetResult 3 None]
   \<and> 100200000 - 500000 < successTTL (scenario 2)"
  by (simp add: eval_defs)

theorem fresh_entry_served_witness:
  "wf_cache (scenario 2)
   \<and> Get ''a'' (1, None) 0 0 0 (scenario 2)
       = Some ((1, None), after [CallGet ''a'' (1, None) 0 0 0] (scenario 2))
   \<and> fetched (after [CallGet ''a'' (1, None) 0 0 0] (scenario 2)) \<noteq> fetched (scenario 2)
   \<and> UnixMilli (Add 0 (successTTL (scenario 2))) = 100
   \<and> run [CallGet ''b'' (0, Some ''down'') (ms 10) (ms 10) (ms 10),
           CallGet ''a'' (9, None) (ms 20) (ms 20) (ms 20)]
          (after [CallGet ''a'' (1, None) 0 0 0] (scenario 2))
       = Some ([GetResult 0 (Some ''down''), GetResult 1 None],
               after [CallGet ''a'' (1, None) 0 0 0,
                      CallGet ''b'' (0, Some ''down'') (ms 10) (ms 10) (ms 10),
                      CallGet ''a'' (9, None) (ms 20) (ms 20) (ms 20)] (scenario 2))
   \<and> UnixMilli (ms 99) < 100
   \<and> (\<exists>s3. Get ''a'' (3, None) (ms 99) (ms 99) (ms 99)
               (after [CallGet ''a'' (1, None) 0 0 0,
                       CallGet ''b'' (0, Some ''down'') (ms 10) (ms 10) (ms 10),
                       CallGet ''a'' (9, None) (ms 20) (ms 20) (ms 20)] (scenario 2))
             = Some ((1, None), s3)
           \<and> fetched s3 = 2
           \<and> target s3 = \<lparr>getHit = 2, getSuccess = 1, getFailed = 1\<rparr>)"
proof -
  let ?s1 = "after [CallGet ''a'' (1, None) 0 0 0] (scenario 2)"
  let ?cs = "[CallGet ''b'' (0, Some ''down'') (ms 10) (ms 10) (ms 10),
              CallGet ''a'' (9, None) (ms 20) (ms 20) (ms 20)]
             :: (string, int, string) call list"
  let ?s2 = "after [CallGet ''a'' (1, None) 0 0 0,
                    CallGet ''b'' (0, Some ''down'') (ms 10) (ms 10) (ms 10),
                    CallGet ''a'' (9, None) (ms 20) (ms 20) (ms 20)] (scenario 2)"
  have w: "wf_cache (scenario 2)" by (simp add: eval_defs)
  have g: "Get ''a'' (1, None) 0 0 0 (scenario 2) = Some ((1, None), ?s1)"
    by (simp add: eval_defs)
  have f: "fetched ?s1 \<noteq> fetched (scenario 2)" by (simp add: eval_defs)
  have E: "100 = UnixMilli (Add 0 (if snd (1::int, None :: string option) = None
                                   then successTTL (scenario 2) else failedTTL (scenario 2)))"
    "(100::int) \<noteq> 0" "UnixMilli (Add 0 (successTTL (scenario 2))) = 100"
    by (simp_all add: eval_defs)
  have r: "run ?cs ?s1 = Some ([GetResult 0 (Some ''down''), GetResult 1 None], ?s2)"
    by (simp add: eval_defs)
  have b: "\<forall>c\<in>set ?cs. reads_before 100 c" by (simp add: eval_defs)
  have i: "item_of ?s2 ''a'' = item_of ?s1 ''a''" by (simp add: eval_defs)
  have n: "UnixMilli (ms 99) < 100" by (simp add: eval_defs)
  have v: "fetched ?s2 = 2" "IncrGetHit (target ?s2) = \<lparr>getHit = 2, getSuccess = 1, getFailed = 1\<rparr>"
    by (simp_all add: eval_defs)
  from fresh_entry_served[OF w g f E(1,2) r b i n, of "(3, None)" "ms 99" "ms 99"] v
  have "\<exists>s3. Get ''a'' (3, None) (ms 99) (ms 99) (ms 99) ?s2 = Some ((1, None), s3)
           \<and> fetched s3 = 2 \<and> target s3 = \<lparr>getHit = 2, getSuccess = 1, getFailed = 1\<rparr>"
    by simp
  with w g f E(3) r n show ?thesis by blast
qed

section \<open>Invariants of the concurrent system\<close>

lemma at_fields [simp]:
  "pcs (at t p s) = (pcs s)(t := p)"
  "heap (at t p s) = heap s"
  "core (at t p s) = core s"
  "fresh (at t p s) = fresh s"
  "xlock (at t p s) = xlock s"
  "clock (at t p s) = clock s"
  "tally (at t p s) = tally s"
  "fetches (at t p s) = fetches s"
  "target (at t p s) = target s"
  "fetched (at t p s) = fetched s"
  "evictions (at t p s) = evictions s"
  "successTTL (at t p s) = successTTL s"
  "failedTTL (at t p s) = failedTTL s"
  by (simp_all add: at_def)

lemma sink_fields [simp]:
  "pcs (sink t f s) = pcs s"
  "heap (sink t f s) = heap s"
  "core (sink t f s) = core s"
  "fresh (sink t f s) = fresh s"
  "xlock (sink t f s) = xlock s"
  "clock (sink t f s) = clock s"
  "tally (sink t f s) = (tally s)(t := f (tally s t))"
  "fetches (sink t f s) = fetches s"
  "target (sink t f s) = f (target s)"
  "fetched (sink t f s) = fetched s"
  "evictions (sink t f s) = evictions s"
  "successTTL (sink t f s) = successTTL s"
  "failedTTL (sink t f s) = failedTTL s"
  by (simp_all add: sink_def)

lemma set_lock_sys [simp]:
  "pcs (set_lock v b s) = pcs s"
  "clock (set_lock v b s) = clock s"
  "tally (set_lock v b s) = tally s"
  "fetches (set_lock v b s) = fetches s"
  by (simp_all add: set_lock_def)

lemma cb_sys [simp]:
  "pcs (cb cs s) = pcs s"
  "clock (cb cs s) = clock s"
  "tally (cb cs s) = tally s"
  "fetches (cb cs s) = fetches s"
  by (simp_all add: cb_def)

lemma list_all_lru_Get:
  "list_all P (evictList c) \<Longrightarrow> list_all P (evictList (snd (lru_Get key c)))"
  by (auto simp: lru_Get_def list_all_iff split: option.splits dest: map_of_SomeD)

lemma list_all_lru_Add:
  "list_all P (evictList c) \<Longrightarrow> P (key, v) \<Longrightarrow> list_all P (evictList (fst (lru_Add key v c)))"
  by (auto simp: lru_Add_def Let_def list_all_iff dest: in_set_butlastD)

lemma list_all_lru_Remove:
  "list_all P (evictList c) \<Longrightarrow> list_all P (evictList (fst (snd (lru_Remove key c))))"
  by (auto simp: lru_Remove_def list_all_iff)

lemma lru_Get_Some_allocated:
  "list_all P (evictList c) \<Longrightarrow> fst (lru_Get key c) = Some v \<Longrightarrow> P (key, v)"
  by (auto simp: lru_Get_def list_all_iff split: option.splits dest: map_of_SomeD)

lemma next_step_L45:
  "next_step t (L45 key) s =
     Some (case fst (lru_Get key (core s)) of
             Some v \<Rightarrow> at t (L47 v) (s\<lparr>core := snd (lru_Get key (core s))\<rparr>)
           | None \<Rightarrow> at t (L56 key) (s\<lparr>core := snd (lru_Get key (core s))\<rparr>))"
  by (simp split: prod.splits option.splits)

lemma next_step_L57:
  "next_step t (L57 key v) s =
     Some (at t (L58 v) (cb (snd (lru_Add key v (core s))) (s\<lparr>core := fst (lru_Add key v (core s))\<rparr>)))"
  by (simp split: prod.splits)

lemma next_step_L78:
  "next_step t (L78 key) s =
     Some (at t (L79 (fst (lru_Remove key (core s))))
             (cb (snd (snd (lru_Remove key (core s))))
                (s\<lparr>core := fst (snd (lru_Remove key (core s)))\<rparr>)))"
  by (simp split: prod.splits)

lemma holds_refs: "holds p = Some v \<Longrightarrow> refs p = Some v"
  by (cases p) auto

lemma list_all_less_Suc:
  "list_all (\<lambda>q. snd q < n) xs \<Longrightarrow> list_all (\<lambda>q. snd q < Suc n) xs"
  by (auto simp: list_all_iff less_Suc_eq)

lemma creating_holds_x: "creating p = Some v \<Longrightarrow> holds_x p"
  by (cases p) auto

lemma creating_refs: "creating p = Some v \<Longrightarrow> refs p = Some v"
  by (cases p) auto

lemma inv_locksD:
  assumes "inv_locks s"
  shows "0 \<le> clock s"
    and "list_all (\<lambda>p. snd p < fresh s) (evictList (core s))"
    and "\<And>t v. refs (pcs s t) = Some v \<Longrightarrow> v < fresh s"
    and "\<And>t. holds_x (pcs s t) \<Longrightarrow> xlock s"
    and "\<And>t t'. holds_x (pcs s t) \<Longrightarrow> holds_x (pcs s t') \<Longrightarrow> t = t'"
    and "\<And>t v. holds (pcs s t) = Some v \<Longrightarrow> lock (heap s v)"
    and "\<And>t t' v. holds (pcs s t) = Some v \<Longrightarrow> holds (pcs s t') = Some v \<Longrightarrow> t = t'"
  using assms unfolding inv_locks_def by blast+

lemma inv_locks_preserve:
  assumes I: "inv_locks s"
    and P: "pcs s' = (pcs s)(t := p)"
    and C: "0 \<le> clock s'"
    and F: "fresh s \<le> fresh s'"
    and A: "list_all (\<lambda>q. snd q < fresh s') (evictList (core s'))"
    and R: "\<And>v. refs p = Some v \<Longrightarrow> v < fresh s'"
    and X: "xlock s' = (holds_x p \<or> (xlock s \<and> \<not> holds_x (pcs s t)))"
    and XA: "holds_x p \<Longrightarrow> holds_x (pcs s t) \<or> \<not> xlock s"
    and L: "\<And>a. a < fresh s \<Longrightarrow>
              lock (heap s' a) = (holds p = Some a \<or> (lock (heap s a) \<and> holds (pcs s t) \<noteq> Some a))"
    and LA: "\<And>a. holds p = Some a \<Longrightarrow>
               a < fresh s \<and> (holds (pcs s t) = Some a \<or> \<not> lock (heap s a))"
  shows "inv_locks s'"
proof -
  note D = inv_locksD[OF I]
  have c: "v < fresh s'" if "refs (pcs s' t') = Some v" for t' v
  proof (cases "t' = t")
    case True
    with that P show ?thesis by (simp add: R)
  next
    case False
    with that P have "refs (pcs s t') = Some v" by simp
    then have "v < fresh s" by (rule D(3))
    with F show ?thesis by simp
  qed
  have d: "xlock s'" if "holds_x (pcs s' t')" for t'
  proof (cases "t' = t")
    case True
    with that P X show ?thesis by simp
  next
    case False
    with that P have h: "holds_x (pcs s t')" by simp
    then have "xlock s" by (rule D(4))
    moreover have "\<not> holds_x (pcs s t)" using D(5)[OF h] False by auto
    ultimately show ?thesis using X by simp
  qed
  have e1: False if "t2 \<noteq> t" "holds_x p" "holds_x (pcs s t2)" for t2
    using XA[OF that(2)] D(4)[OF that(3)] D(5)[OF that(3), of t] that(1) by auto
  have e: "t1 = t2" if "holds_x (pcs s' t1)" "holds_x (pcs s' t2)" for t1 t2
  proof (cases "t1 = t"; cases "t2 = t")
    assume "t1 = t" "t2 = t" then show ?thesis by simp
  next
    assume "t1 = t" "t2 \<noteq> t" with that P e1[of t2] show ?thesis by simp
  next
    assume "t1 \<noteq> t" "t2 = t" with that P e1[of t1] show ?thesis by simp
  next
    assume "t1 \<noteq> t" "t2 \<noteq> t" with that P D(5)[of t1 t2] show ?thesis by simp
  qed
  have f: "lock (heap s' a)" if "holds (pcs s' t') = Some a" for t' a
  proof (cases "t' = t")
    case True
    with that P have "holds p = Some a" by simp
    with LA[OF this] L[of a] show ?thesis by simp
  next
    case False
    with that P have h: "holds (pcs s t') = Some a" by simp
    have "a < fresh s" using h by (intro D(3)[of t'] holds_refs)
    moreover have "lock (heap s a)" using h by (rule D(6))
    moreover have "holds (pcs s t) \<noteq> Some a" using D(7)[OF h, of t] False by auto
    ultimately show ?thesis using L[of a] by simp
  qed
  have g1: False if "t2 \<noteq> t" "holds p = Some a" "holds (pcs s t2) = Some a" for t2 a
    using LA[OF that(2)] D(6)[OF that(3)] D(7)[OF that(3), of t] that(1) by auto
  have g: "t1 = t2" if "holds (pcs s' t1) = Some a" "holds (pcs s' t2) = Some a" for t1 t2 a
  proof (cases "t1 = t"; cases "t2 = t")
    assume "t1 = t" "t2 = t" then show ?thesis by simp
  next
    assume "t1 = t" "t2 \<noteq> t" with that P g1[of t2 a] show ?thesis by simp
  next
    assume "t1 \<noteq> t" "t2 = t" with that P g1[of t1 a] show ?thesis by simp
  next
    assume "t1 \<noteq> t" "t2 \<noteq> t" with that P D(7)[of t1 a t2] show ?thesis by simp
  qed
  show ?thesis
    unfolding inv_locks_def using C A c d e f g by blast
qed

lemma inv_locks_step_Step:
  assumes "inv_locks s" "next_step t (pcs s t) s = Some s'"
  shows "inv_locks s'"
proof -
  note D = inv_locksD[OF assms(1)]
  note lt = D(3)[of t] D(4)[of t] D(6)[of t]
  show ?thesis
  proof (cases "pcs s t")
      case Idle
      with assms(2) lt D(1,2) list_all_less_Suc[OF D(2)] show ?thesis
        by (intro inv_locks_preserve[OF assms(1), where t = t and p = "pcs s' t"])
           (auto simp: less_Suc_eq split: if_splits)
    next
      case (L44 key)
      with assms(2) lt D(1,2) list_all_less_Suc[OF D(2)] show ?thesis
        by (intro inv_locks_preserve[OF assms(1), where t = t and p = "pcs s' t"])
           (auto simp: less_Suc_eq split: if_splits)
    next
      case (L45 key)
      have "s' = (case fst (lru_Get key (core s)) of
               Some v \<Rightarrow> at t (L47 v) (s\<lparr>core := snd (lru_Get key (core s))\<rparr>)
             | None \<Rightarrow> at t (L56 key) (s\<lparr>core := snd (lru_Get key (core s))\<rparr>))"
        using assms(2) unfolding L45 next_step_L45 by simp
      with L45 lt D(1) list_all_lru_Get[OF D(2), of key] lru_Get_Some_allocated[OF D(2), of key]
      show ?thesis
        by (intro inv_locks_preserve[OF assms(1), where t = t and p = "pcs s' t"])
           (auto split: option.splits)
    next
      case (L47 v)
      with assms(2) lt D(1,2) list_all_less_Suc[OF D(2)] show ?thesis
        by (intro inv_locks_preserve[OF assms(1), where t = t and p = "pcs s' t"])
           (auto simp: less_Suc_eq split: if_splits)
    next
      case (L48 v)
      with assms(2) lt D(1,2) list_all_less_Suc[OF D(2)] show ?thesis
        by (intro inv_locks_preserve[OF assms(1), where t = t and p = "pcs s' t"])
           (auto simp: less_Suc_eq split: if_splits)
    next
      case (L49 v)
      with assms(2) lt D(1,2) list_all_less_Suc[OF D(2)] show ?thesis
        by (intro inv_locks_preserve[OF assms(1), where t = t and p = "pcs s' t"])
           (auto simp: less_Suc_eq split: if_splits)
    next
      case (L50 v e va er)
      with assms(2) lt D(1,2) list_all_less_Suc[OF D(2)] show ?thesis
        by (intro inv_locks_preserve[OF assms(1), where t = t and p = "pcs s' t"])
           (auto simp: less_Suc_eq split: if_splits)
    next
      case (L51 v va er)
      with assms(2) lt D(1,2) list_all_less_Suc[OF D(2)] show ?thesis
        by (intro inv_locks_preserve[OF assms(1), where t = t and p = "pcs s' t"])
           (auto simp: less_Suc_eq split: if_splits)
    next
      case (L52 va er)
      with assms(2) lt D(1,2) list_all_less_Suc[OF D(2)] show ?thesis
        by (intro inv_locks_preserve[OF assms(1), where t = t and p = "pcs s' t"])
           (auto simp: less_Suc_eq split: if_splits)
    next
      case (L53 va er)
      with assms(2) lt D(1,2) list_all_less_Suc[OF D(2)] show ?thesis
        by (intro inv_locks_preserve[OF assms(1), where t = t and p = "pcs s' t"])
           (auto simp: less_Suc_eq split: if_splits)
    next
      case (L56 key)
      with assms(2) lt D(1,2) list_all_less_Suc[OF D(2)] show ?thesis
        by (intro inv_locks_preserve[OF assms(1), where t = t and p = "pcs s' t"])
           (auto simp: less_Suc_eq split: if_splits)
    next
      case (L57 key v)
      have "s' = at t (L58 v) (cb (snd (lru_Add key v (core s)))
                               (s\<lparr>core := fst (lru_Add key v (core s))\<rparr>))"
        using assms(2) unfolding L57 next_step_L57 by simp
      with L57 lt D(1) list_all_lru_Add[OF D(2), of key v]
      show ?thesis
        by (intro inv_locks_preserve[OF assms(1), where t = t and p = "pcs s' t"]) auto
    next
      case (L58 v)
      with assms(2) lt D(1,2) list_all_less_Suc[OF D(2)] show ?thesis
        by (intro inv_locks_preserve[OF assms(1), where t = t and p = "pcs s' t"])
           (auto simp: less_Suc_eq split: if_splits)
    next
      case (L59 v)
      with assms(2) lt D(1,2) list_all_less_Suc[OF D(2)] show ?thesis
        by (intro inv_locks_preserve[OF assms(1), where t = t and p = "pcs s' t"])
           (auto simp: less_Suc_eq split: if_splits)
    next
      case (L62 v)
      with assms(2) lt D(1,2) list_all_less_Suc[OF D(2)] show ?thesis
        by (intro inv_locks_preserve[OF assms(1), where t = t and p = "pcs s' t"])
           (auto simp: less_Suc_eq split: if_splits)
    next
      case (L63 v)
      with assms(2) lt D(1,2) list_all_less_Suc[OF D(2)] show ?thesis
        by (intro inv_locks_preserve[OF assms(1), where t = t and p = "pcs s' t"])
           (auto simp: less_Suc_eq split: if_splits)
    next
      case (L65 v)
      with assms(2) lt D(1,2) list_all_less_Suc[OF D(2)] show ?thesis
        by (intro inv_locks_preserve[OF assms(1), where t = t and p = "pcs s' t"])
           (auto simp: less_Suc_eq split: if_splits)
    next
      case (Fetching v)
      with assms(2) lt D(1,2) list_all_less_Suc[OF D(2)] show ?thesis
        by (intro inv_locks_preserve[OF assms(1), where t = t and p = "pcs s' t"])
           (auto simp: less_Suc_eq split: if_splits)
    next
      case (L66 v)
      with assms(2) lt D(1,2) list_all_less_Suc[OF D(2)] show ?thesis
        by (intro inv_locks_preserve[OF assms(1), where t = t and p = "pcs s' t"])
           (auto simp: less_Suc_eq split: if_splits)
    next
      case (L67 v)
      with assms(2) lt D(1,2) list_all_less_Suc[OF D(2)] show ?thesis
        by (intro inv_locks_preserve[OF assms(1), where t = t and p = "pcs s' t"])
           (auto simp: less_Suc_eq split: if_splits)
    next
      case (L68 v)
      with assms(2) lt D(1,2) list_all_less_Suc[OF D(2)] show ?thesis
        by (intro inv_locks_preserve[OF assms(1), where t = t and p = "pcs s' t"])
           (auto simp: less_Suc_eq split: if_splits)
    next
      case (L70 v)
      with assms(2) lt D(1,2) list_all_less_Suc[OF D(2)] show ?thesis
        by (intro inv_locks_preserve[OF assms(1), where t = t and p = "pcs s' t"])
           (auto simp: less_Suc_eq split: if_splits)
    next
      case (L71 v)
      with assms(2) lt D(1,2) list_all_less_Suc[OF D(2)] show ?thesis
        by (intro inv_locks_preserve[OF assms(1), where t = t and p = "pcs s' t"])
           (auto simp: less_Suc_eq split: if_splits)
    next
      case (L73 v)
      with assms(2) lt D(1,2) list_all_less_Suc[OF D(2)] show ?thesis
        by (intro inv_locks_preserve[OF assms(1), where t = t and p = "pcs s' t"])
           (auto simp: less_Suc_eq split: if_splits)
    next
      case (Returned va er)
      with assms(2) lt D(1,2) list_all_less_Suc[OF D(2)] show ?thesis
        by (intro inv_locks_preserve[OF assms(1), where t = t and p = "pcs s' t"])
           (auto simp: less_Suc_eq split: if_splits)
    next
      case (L77 key)
      with assms(2) lt D(1,2) list_all_less_Suc[OF D(2)] show ?thesis
        by (intro inv_locks_preserve[OF assms(1), where t = t and p = "pcs s' t"])
           (auto simp: less_Suc_eq split: if_splits)
    next
      case (L78 key)
      have "s' = at t (L79 (fst (lru_Remove key (core s))))
                   (cb (snd (snd (lru_Remove key (core s))))
                      (s\<lparr>core := fst (snd (lru_Remove key (core s)))\<rparr>))"
        using assms(2) unfolding L78 next_step_L78 by simp
      with L78 lt D(1) list_all_lru_Remove[OF D(2), of key]
      show ?thesis
        by (intro inv_locks_preserve[OF assms(1), where t = t and p = "pcs s' t"]) auto
    next
      case (L79 ok)
      with assms(2) lt D(1,2) list_all_less_Suc[OF D(2)] show ?thesis
        by (intro inv_locks_preserve[OF assms(1), where t = t and p = "pcs s' t"])
           (auto simp: less_Suc_eq split: if_splits)
    next
      case (L80 ok)
      with assms(2) lt D(1,2) list_all_less_Suc[OF D(2)] show ?thesis
        by (intro inv_locks_preserve[OF assms(1), where t = t and p = "pcs s' t"])
           (auto simp: less_Suc_eq split: if_splits)
    next
      case (Deleted ok)
      with assms(2) lt D(1,2) list_all_less_Suc[OF D(2)] show ?thesis
        by (intro inv_locks_preserve[OF assms(1), where t = t and p = "pcs s' t"])
           (auto simp: less_Suc_eq split: if_splits)
  qed
qed

lemma knows_frame:
  assumes "knows q s" and "clock s \<le> clock s'"
    and "\<And>v. holds q = Some v \<or> creating q = Some v \<Longrightarrow>
           expires (heap s' v) = expires (heap s v) \<and> val (heap s' v) = val (heap s v)
           \<and> err (heap s' v) = err (heap s v)"
  shows "knows q s'"
proof (cases q)
  case (L62 v)
  have "UnixMilli (clock s) \<le> UnixMilli (clock s')" using assms(2) by (rule UnixMilli_mono)
  with assms(1) assms(3)[of v] L62 show ?thesis by auto
qed (use assms in auto)

lemma inv_itemsD:
  assumes "inv_items s"
  shows "\<And>t. knows (pcs s t) s"
    and "\<And>t t' v. creating (pcs s t) = Some v \<Longrightarrow> refs (pcs s t') = Some v \<Longrightarrow> t' = t"
  using assms unfolding inv_items_def by blast+

lemma inv_items_preserve:
  assumes L: "inv_locks s" and I: "inv_items s"
    and P: "pcs s' = (pcs s)(t := p)"
    and T: "clock s \<le> clock s'"
    and H: "\<And>a. a < fresh s \<Longrightarrow> holds (pcs s t) \<noteq> Some a \<Longrightarrow>
              expires (heap s' a) = expires (heap s a) \<and> val (heap s' a) = val (heap s a)
              \<and> err (heap s' a) = err (heap s a)"
    and K: "knows p s'"
    and N1: "\<And>v. creating p = Some v \<Longrightarrow> creating (pcs s t) = Some v \<or> fresh s \<le> v"
    and N2: "\<And>v. refs p = Some v \<Longrightarrow>
               refs (pcs s t) = Some v \<or> holds_x (pcs s t) \<or> fresh s \<le> v"
  shows "inv_items s'"
proof -
  note D = inv_locksD[OF L]
  note E = inv_itemsD[OF I]
  have k: "knows (pcs s' t') s'" for t'
  proof (cases "t' = t")
    case True
    with P K show ?thesis by simp
  next
    case False
    have "knows (pcs s t') s'"
    proof (rule knows_frame[OF E(1)[of t'] T])
      fix v assume hc: "holds (pcs s t') = Some v \<or> creating (pcs s t') = Some v"
      then have r: "refs (pcs s t') = Some v" by (auto dest: holds_refs creating_refs)
      then have a: "v < fresh s" by (rule D(3))
      have "holds (pcs s t) \<noteq> Some v"
      proof
        assume h: "holds (pcs s t) = Some v"
        from hc show False
        proof
          assume "holds (pcs s t') = Some v"
          with h D(7)[of t v t'] False show False by simp
        next
          assume "creating (pcs s t') = Some v"
          with holds_refs[OF h] E(2)[of t' v t] False show False by simp
        qed
      qed
      with a show "expires (heap s' v) = expires (heap s v) \<and> val (heap s' v) = val (heap s v)
           \<and> err (heap s' v) = err (heap s v)" by (rule H)
    qed
    with False P show ?thesis by simp
  qed
  have p1: False if "t2 \<noteq> t" "creating p = Some v" "refs (pcs s t2) = Some v" for t2 v
  proof -
    from N1[OF that(2)] consider "creating (pcs s t) = Some v" | "fresh s \<le> v" by blast
    then show False
    proof cases
      case 1
      from E(2)[OF 1 that(3)] that(1) show False by simp
    next
      case 2
      with D(3)[OF that(3)] show False by simp
    qed
  qed
  have p2: False if "t1 \<noteq> t" "creating (pcs s t1) = Some v" "refs p = Some v" for t1 v
  proof -
    from N2[OF that(3)] consider "refs (pcs s t) = Some v" | "holds_x (pcs s t)" | "fresh s \<le> v"
      by blast
    then show False
    proof cases
      case 1
      from E(2)[OF that(2) 1] that(1) show False by simp
    next
      case 2
      from D(5)[OF creating_holds_x[OF that(2)] 2] that(1) show False by simp
    next
      case 3
      with D(3)[OF creating_refs[OF that(2)]] show False by simp
    qed
  qed
  have pr: "t2 = t1" if "creating (pcs s' t1) = Some v" "refs (pcs s' t2) = Some v" for t1 t2 v
  proof (cases "t1 = t"; cases "t2 = t")
    assume "t1 = t" "t2 = t" then show ?thesis by simp
  next
    assume "t1 = t" "t2 \<noteq> t" with that P p1[of t2 v] show ?thesis by simp
  next
    assume "t1 \<noteq> t" "t2 = t" with that P p2[of t1 v] show ?thesis by simp
  next
    assume "t1 \<noteq> t" "t2 \<noteq> t" with that P E(2)[of t1 v t2] show ?thesis by simp
  qed
  show ?thesis unfolding inv_items_def using k pr by blast
qed

lemma inv_count_preserve:
  assumes I: "inv_count s"
    and P: "pcs s' = (pcs s)(t := p)"
    and N: "\<And>v. p \<noteq> L63 v"
    and F: "\<And>t'. t' \<noteq> t \<Longrightarrow> tally s' t' = tally s t' \<and> fetches s' t' = fetches s t'"
    and C: "accounted p (tally s' t) (fetches s' t)"
  shows "inv_count s'"
  using assms unfolding inv_count_def by (auto split: if_splits)

lemma inv_items_step_Step:
  assumes "inv_locks s" "inv_items s" "next_step t (pcs s t) s = Some s'"
  shows "inv_items s'"
proof -
  note D = inv_locksD[OF assms(1)]
  note lt = D(3)[of t] D(4)[of t] D(6)[of t]
  note k = inv_itemsD(1)[OF assms(2), of t]
  show ?thesis
  proof (cases "pcs s t")
      case Idle
      with assms(3) lt D(1) k show ?thesis
        by (intro inv_items_preserve[OF assms(1,2), where t = t and p = "pcs s' t"])
           (auto simp: new_item_def split: if_splits)
    next
      case (L44 key)
      with assms(3) lt D(1) k show ?thesis
        by (intro inv_items_preserve[OF assms(1,2), where t = t and p = "pcs s' t"])
           (auto simp: new_item_def split: if_splits)
    next
      case (L45 key)
      have "s' = (case fst (lru_Get key (core s)) of
               Some v \<Rightarrow> at t (L47 v) (s\<lparr>core := snd (lru_Get key (core s))\<rparr>)
             | None \<Rightarrow> at t (L56 key) (s\<lparr>core := snd (lru_Get key (core s))\<rparr>))"
        using assms(3) unfolding L45 next_step_L45 by simp
      with L45 lt D(1) k show ?thesis
        by (intro inv_items_preserve[OF assms(1,2), where t = t and p = "pcs s' t"])
           (auto split: option.splits)
    next
      case (L47 v)
      with assms(3) lt D(1) k show ?thesis
        by (intro inv_items_preserve[OF assms(1,2), where t = t and p = "pcs s' t"])
           (auto simp: new_item_def split: if_splits)
    next
      case (L48 v)
      with assms(3) lt D(1) k show ?thesis
        by (intro inv_items_preserve[OF assms(1,2), where t = t and p = "pcs s' t"])
           (auto simp: new_item_def split: if_splits)
    next
      case (L49 v)
      with assms(3) lt D(1) k show ?thesis
        by (intro inv_items_preserve[OF assms(1,2), where t = t and p = "pcs s' t"])
           (auto simp: new_item_def split: if_splits)
    next
      case (L50 v e va er)
      with assms(3) lt D(1) k show ?thesis
        by (intro inv_items_preserve[OF assms(1,2), where t = t and p = "pcs s' t"])
           (auto simp: new_item_def split: if_splits)
    next
      case (L51 v va er)
      with assms(3) lt D(1) k show ?thesis
        by (intro inv_items_preserve[OF assms(1,2), where t = t and p = "pcs s' t"])
           (auto simp: new_item_def split: if_splits)
    next
      case (L52 va er)
      with assms(3) lt D(1) k show ?thesis
        by (intro inv_items_preserve[OF assms(1,2), where t = t and p = "pcs s' t"])
           (auto simp: new_item_def split: if_splits)
    next
      case (L53 va er)
      with assms(3) lt D(1) k show ?thesis
        by (intro inv_items_preserve[OF assms(1,2), where t = t and p = "pcs s' t"])
           (auto simp: new_item_def split: if_splits)
    next
      case (L56 key)
      with assms(3) lt D(1) k show ?thesis
        by (intro inv_items_preserve[OF assms(1,2), where t = t and p = "pcs s' t"])
           (auto simp: new_item_def split: if_splits)
    next
      case (L57 key v)
      have "s' = at t (L58 v) (cb (snd (lru_Add key v (core s)))
                               (s\<lparr>core := fst (lru_Add key v (core s))\<rparr>))"
        using assms(3) unfolding L57 next_step_L57 by simp
      with L57 lt D(1) k show ?thesis
        by (intro inv_items_preserve[OF assms(1,2), where t = t and p = "pcs s' t"]) auto
    next
      case (L58 v)
      with assms(3) lt D(1) k show ?thesis
        by (intro inv_items_preserve[OF assms(1,2), where t = t and p = "pcs s' t"])
           (auto simp: new_item_def split: if_splits)
    next
      case (L59 v)
      with assms(3) lt D(1) k show ?thesis
        by (intro inv_items_preserve[OF assms(1,2), where t = t and p = "pcs s' t"])
           (auto simp: new_item_def split: if_splits)
    next
      case (L62 v)
      with assms(3) lt D(1) k show ?thesis
        by (intro inv_items_preserve[OF assms(1,2), where t = t and p = "pcs s' t"])
           (auto simp: new_item_def split: if_splits)
    next
      case (L63 v)
      with assms(3) lt D(1) k show ?thesis
        by (intro inv_items_preserve[OF assms(1,2), where t = t and p = "pcs s' t"])
           (auto simp: new_item_def split: if_splits)
    next
      case (L65 v)
      with assms(3) lt D(1) k show ?thesis
        by (intro inv_items_preserve[OF assms(1,2), where t = t and p = "pcs s' t"])
           (auto simp: new_item_def split: if_splits)
    next
      case (Fetching v)
      with assms(3) lt D(1) k show ?thesis
        by (intro inv_items_preserve[OF assms(1,2), where t = t and p = "pcs s' t"])
           (auto simp: new_item_def split: if_splits)
    next
      case (L66 v)
      with assms(3) lt D(1) k show ?thesis
        by (intro inv_items_preserve[OF assms(1,2), where t = t and p = "pcs s' t"])
           (auto simp: new_item_def split: if_splits)
    next
      case (L67 v)
      with assms(3) lt D(1) k show ?thesis
        by (intro inv_items_preserve[OF assms(1,2), where t = t and p = "pcs s' t"])
           (auto simp: new_item_def split: if_splits)
    next
      case (L68 v)
      with assms(3) lt D(1) k show ?thesis
        by (intro inv_items_preserve[OF assms(1,2), where t = t and p = "pcs s' t"])
           (auto simp: new_item_def split: if_splits)
    next
      case (L70 v)
      with assms(3) lt D(1) k show ?thesis
        by (intro inv_items_preserve[OF assms(1,2), where t = t and p = "pcs s' t"])
           (auto simp: new_item_def split: if_splits)
    next
      case (L71 v)
      with assms(3) lt D(1) k show ?thesis
        by (intro inv_items_preserve[OF assms(1,2), where t = t and p = "pcs s' t"])
           (auto simp: new_item_def split: if_splits)
    next
      case (L73 v)
      with assms(3) lt D(1) k show ?thesis
        by (intro inv_items_preserve[OF assms(1,2), where t = t and p = "pcs s' t"])
           (auto simp: new_item_def split: if_splits)
    next
      case (Returned va er)
      with assms(3) lt D(1) k show ?thesis
        by (intro inv_items_preserve[OF assms(1,2), where t = t and p = "pcs s' t"])
           (auto simp: new_item_def split: if_splits)
    next
      case (L77 key)
      with assms(3) lt D(1) k show ?thesis
        by (intro inv_items_preserve[OF assms(1,2), where t = t and p = "pcs s' t"])
           (auto simp: new_item_def split: if_splits)
    next
      case (L78 key)
      have "s' = at t (L79 (fst (lru_Remove key (core s))))
                   (cb (snd (snd (lru_Remove key (core s))))
                      (s\<lparr>core := fst (snd (lru_Remove key (core s)))\<rparr>))"
        using assms(3) unfolding L78 next_step_L78 by simp
      with L78 lt D(1) k show ?thesis
        by (intro inv_items_preserve[OF assms(1,2), where t = t and p = "pcs s' t"]) auto
    next
      case (L79 ok)
      with assms(3) lt D(1) k show ?thesis
        by (intro inv_items_preserve[OF assms(1,2), where t = t and p = "pcs s' t"])
           (auto simp: new_item_def split: if_splits)
    next
      case (L80 ok)
      with assms(3) lt D(1) k show ?thesis
        by (intro inv_items_preserve[OF assms(1,2), where t = t and p = "pcs s' t"])
           (auto simp: new_item_def split: if_splits)
    next
      case (Deleted ok)
      with assms(3) lt D(1) k show ?thesis
        by (intro inv_items_preserve[OF assms(1,2), where t = t and p = "pcs s' t"])
           (auto simp: new_item_def split: if_splits)
  qed
qed

lemma inv_count_step_Step:
  assumes "inv_locks s" "inv_count s" "inv_items s" "next_step t (pcs s t) s = Some s'"
  shows "inv_count s'"
proof -
  note D = inv_locksD[OF assms(1)]
  note k = inv_itemsD(1)[OF assms(3), of t]
  have c: "accounted (pcs s t) (tally s t) (fetches s t)"
    and n: "\<And>v. pcs s t \<noteq> L63 v"
    using assms(2) unfolding inv_count_def by blast+
  show ?thesis
  proof (cases "pcs s t")
      case Idle
      with assms(4) c n k D(1) UnixMilli_nonneg[OF D(1)] show ?thesis
        by (intro inv_count_preserve[OF assms(2), where t = t and p = "pcs s' t"])
           (auto split: if_splits)
    next
      case (L44 key)
      with assms(4) c n k D(1) UnixMilli_nonneg[OF D(1)] show ?thesis
        by (intro inv_count_preserve[OF assms(2), where t = t and p = "pcs s' t"])
           (auto split: if_splits)
    next
      case (L45 key)
      have "s' = (case fst (lru_Get key (core s)) of
               Some v \<Rightarrow> at t (L47 v) (s\<lparr>core := snd (lru_Get key (core s))\<rparr>)
             | None \<Rightarrow> at t (L56 key) (s\<lparr>core := snd (lru_Get key (core s))\<rparr>))"
        using assms(4) unfolding L45 next_step_L45 by simp
      with L45 c n show ?thesis
        by (intro inv_count_preserve[OF assms(2), where t = t and p = "pcs s' t"])
           (auto split: option.splits)
    next
      case (L47 v)
      with assms(4) c n k D(1) UnixMilli_nonneg[OF D(1)] show ?thesis
        by (intro inv_count_preserve[OF assms(2), where t = t and p = "pcs s' t"])
           (auto split: if_splits)
    next
      case (L48 v)
      with assms(4) c n k D(1) UnixMilli_nonneg[OF D(1)] show ?thesis
        by (intro inv_count_preserve[OF assms(2), where t = t and p = "pcs s' t"])
           (auto split: if_splits)
    next
      case (L49 v)
      with assms(4) c n k D(1) UnixMilli_nonneg[OF D(1)] show ?thesis
        by (intro inv_count_preserve[OF assms(2), where t = t and p = "pcs s' t"])
           (auto split: if_splits)
    next
      case (L50 v e va er)
      with assms(4) c n k D(1) UnixMilli_nonneg[OF D(1)] show ?thesis
        by (intro inv_count_preserve[OF assms(2), where t = t and p = "pcs s' t"])
           (auto split: if_splits)
    next
      case (L51 v va er)
      with assms(4) c n k D(1) UnixMilli_nonneg[OF D(1)] show ?thesis
        by (intro inv_count_preserve[OF assms(2), where t = t and p = "pcs s' t"])
           (auto split: if_splits)
    next
      case (L52 va er)
      with assms(4) c n k D(1) UnixMilli_nonneg[OF D(1)] show ?thesis
        by (intro inv_count_preserve[OF assms(2), where t = t and p = "pcs s' t"])
           (auto split: if_splits)
    next
      case (L53 va er)
      with assms(4) c n k D(1) UnixMilli_nonneg[OF D(1)] show ?thesis
        by (intro inv_count_preserve[OF assms(2), where t = t and p = "pcs s' t"])
           (auto split: if_splits)
    next
      case (L56 key)
      with assms(4) c n k D(1) UnixMilli_nonneg[OF D(1)] show ?thesis
        by (intro inv_count_preserve[OF assms(2), where t = t and p = "pcs s' t"])
           (auto split: if_splits)
    next
      case (L57 key v)
      have "s' = at t (L58 v) (cb (snd (lru_Add key v (core s)))
                               (s\<lparr>core := fst (lru_Add key v (core s))\<rparr>))"
        using assms(4) unfolding L57 next_step_L57 by simp
      with L57 c n show ?thesis
        by (intro inv_count_preserve[OF assms(2), where t = t and p = "pcs s' t"]) auto
    next
      case (L58 v)
      with assms(4) c n k D(1) UnixMilli_nonneg[OF D(1)] show ?thesis
        by (intro inv_count_preserve[OF assms(2), where t = t and p = "pcs s' t"])
           (auto split: if_splits)
    next
      case (L59 v)
      with assms(4) c n k D(1) UnixMilli_nonneg[OF D(1)] show ?thesis
        by (intro inv_count_preserve[OF assms(2), where t = t and p = "pcs s' t"])
           (auto split: if_splits)
    next
      case (L62 v)
      with assms(4) c n k D(1) UnixMilli_nonneg[OF D(1)] show ?thesis
        by (intro inv_count_preserve[OF assms(2), where t = t and p = "pcs s' t"])
           (auto split: if_splits)
    next
      case (L63 v)
      with assms(4) c n k D(1) UnixMilli_nonneg[OF D(1)] show ?thesis
        by (intro inv_count_preserve[OF assms(2), where t = t and p = "pcs s' t"])
           (auto split: if_splits)
    next
      case (L65 v)
      with assms(4) c n k D(1) UnixMilli_nonneg[OF D(1)] show ?thesis
        by (intro inv_count_preserve[OF assms(2), where t = t and p = "pcs s' t"])
           (auto split: if_splits)
    next
      case (Fetching v)
      with assms(4) c n k D(1) UnixMilli_nonneg[OF D(1)] show ?thesis
        by (intro inv_count_preserve[OF assms(2), where t = t and p = "pcs s' t"])
           (auto split: if_splits)
    next
      case (L66 v)
      with assms(4) c n k D(1) UnixMilli_nonneg[OF D(1)] show ?thesis
        by (intro inv_count_preserve[OF assms(2), where t = t and p = "pcs s' t"])
           (auto split: if_splits)
    next
      case (L67 v)
      with assms(4) c n k D(1) UnixMilli_nonneg[OF D(1)] show ?thesis
        by (intro inv_count_preserve[OF assms(2), where t = t and p = "pcs s' t"])
           (auto split: if_splits)
    next
      case (L68 v)
      with assms(4) c n k D(1) UnixMilli_nonneg[OF D(1)] show ?thesis
        by (intro inv_count_preserve[OF assms(2), where t = t and p = "pcs s' t"])
           (auto split: if_splits)
    next
      case (L70 v)
      with assms(4) c n k D(1) UnixMilli_nonneg[OF D(1)] show ?thesis
        by (intro inv_count_preserve[OF assms(2), where t = t and p = "pcs s' t"])
           (auto split: if_splits)
    next
      case (L71 v)
      with assms(4) c n k D(1) UnixMilli_nonneg[OF D(1)] show ?thesis
        by (intro inv_count_preserve[OF assms(2), where t = t and p = "pcs s' t"])
           (auto split: if_splits)
    next
      case (L73 v)
      with assms(4) c n k D(1) UnixMilli_nonneg[OF D(1)] show ?thesis
        by (intro inv_count_preserve[OF assms(2), where t = t and p = "pcs s' t"])
           (auto split: if_splits)
    next
      case (Returned va er)
      with assms(4) c n k D(1) UnixMilli_nonneg[OF D(1)] show ?thesis
        by (intro inv_count_preserve[OF assms(2), where t = t and p = "pcs s' t"])
           (auto split: if_splits)
    next
      case (L77 key)
      with assms(4) c n k D(1) UnixMilli_nonneg[OF D(1)] show ?thesis
        by (intro inv_count_preserve[OF assms(2), where t = t and p = "pcs s' t"])
           (auto split: if_splits)
    next
      case (L78 key)
      have "s' = at t (L79 (fst (lru_Remove key (core s))))
                   (cb (snd (snd (lru_Remove key (core s))))
                      (s\<lparr>core := fst (snd (lru_Remove key (core s)))\<rparr>))"
        using assms(4) unfolding L78 next_step_L78 by simp
      with L78 c n show ?thesis
        by (intro inv_count_preserve[OF assms(2), where t = t and p = "pcs s' t"]) auto
    next
      case (L79 ok)
      with assms(4) c n k D(1) UnixMilli_nonneg[OF D(1)] show ?thesis
        by (intro inv_count_preserve[OF assms(2), where t = t and p = "pcs s' t"])
           (auto split: if_splits)
    next
      case (L80 ok)
      with assms(4) c n k D(1) UnixMilli_nonneg[OF D(1)] show ?thesis
        by (intro inv_count_preserve[OF assms(2), where t = t and p = "pcs s' t"])
           (auto split: if_splits)
    next
      case (Deleted ok)
      with assms(4) c n k D(1) UnixMilli_nonneg[OF D(1)] show ?thesis
        by (intro inv_count_preserve[OF assms(2), where t = t and p = "pcs s' t"])
           (auto split: if_splits)
  qed
qed

lemma inv_sys_step:
  assumes "inv_sys s" "step a s = Some s'" "forward a"
  shows "inv_sys s'"
proof -
  have l: "inv_locks s" and i: "inv_items s" and c: "inv_count s"
    using assms(1) by (simp_all add: inv_sys_def)
  note D = inv_locksD[OF l]
  show ?thesis
  proof (cases a)
    case (InvGet t key)
    with assms(2) have s': "s' = at t (L44 key) (s\<lparr>tally := (tally s)(t := no_calls),
                                     fetches := (fetches s)(t := 0)\<rparr>)" and id: "idle (pcs s t)"
      by (auto split: if_splits)
    have q: "holds (pcs s t) = None" "\<not> holds_x (pcs s t)" "refs (pcs s t) = None"
      using id by (cases "pcs s t"; simp)+
    have "inv_locks s'"
      using s' q D(1,2)
      by (intro inv_locks_preserve[OF l, where t = t and p = "L44 key"]) auto
    moreover have "inv_items s'"
      using s' q
      by (intro inv_items_preserve[OF l i, where t = t and p = "L44 key"]) auto
    moreover have "inv_count s'"
      using s' by (intro inv_count_preserve[OF c, where t = t and p = "L44 key"]) auto
    ultimately show ?thesis by (simp add: inv_sys_def)
  next
    case (InvDel t key)
    with assms(2) have s': "s' = at t (L77 key) s" and id: "idle (pcs s t)"
      by (auto split: if_splits)
    have q: "holds (pcs s t) = None" "\<not> holds_x (pcs s t)" "refs (pcs s t) = None"
      using id by (cases "pcs s t"; simp)+
    have "inv_locks s'"
      using s' q D(1,2)
      by (intro inv_locks_preserve[OF l, where t = t and p = "L77 key"]) auto
    moreover have "inv_items s'"
      using s' q
      by (intro inv_items_preserve[OF l i, where t = t and p = "L77 key"]) auto
    moreover have "inv_count s'"
      using s' by (intro inv_count_preserve[OF c, where t = t and p = "L77 key"]) auto
    ultimately show ?thesis by (simp add: inv_sys_def)
  next
    case (Step t)
    with assms(2) have n: "next_step t (pcs s t) s = Some s'" by simp
    from l n have "inv_locks s'" by (rule inv_locks_step_Step)
    moreover from l i n have "inv_items s'" by (rule inv_items_step_Step)
    moreover from l c i n have "inv_count s'" by (rule inv_count_step_Step)
    ultimately show ?thesis by (simp add: inv_sys_def)
  next
    case (Ret t va er)
    with assms(2) obtain v where f: "pcs s t = Fetching v" and
      s': "s' = at t (L66 v) (s\<lparr>heap := (heap s)(v := (heap s v)\<lparr>err := er, val := va\<rparr>)\<rparr>)"
      by (auto split: pc.splits)
    have "inv_locks s'"
      using s' f D(1,2) D(3)[of t] D(6)[of t]
      by (intro inv_locks_preserve[OF l, where t = t and p = "L66 v"]) auto
    moreover have "inv_items s'"
      using s' f
      by (intro inv_items_preserve[OF l i, where t = t and p = "L66 v"]) auto
    moreover have "inv_count s'"
      using s' f c
      by (intro inv_count_preserve[OF c, where t = t and p = "L66 v"])
         (auto simp: inv_count_def dest: spec[of _ t])
    ultimately show ?thesis by (simp add: inv_sys_def)
  next
    case (Tick d)
    with assms(2,3) have s': "s' = s\<lparr>clock := clock s + d\<rparr>" and d: "0 \<le> d" by simp_all
    have p: "pcs s' = (pcs s)(t := pcs s t)" for t using s' by simp
    have "inv_locks s'"
      using s' l d by (simp add: inv_locks_def)
    moreover have "inv_items s'"
      using s' d by (intro inv_items_preserve[OF l i p[of 0]])
                    (auto intro: knows_frame[OF inv_itemsD(1)[OF i]])
    moreover have "inv_count s'"
      using s' c by (simp add: inv_count_def)
    ultimately show ?thesis by (simp add: inv_sys_def)
  qed
qed

lemma inv_sys_exec:
  "inv_sys s \<Longrightarrow> exec as s = Some s' \<Longrightarrow> list_all forward as \<Longrightarrow> inv_sys s'"
proof (induction as arbitrary: s)
  case Nil
  then show ?case by simp
next
  case (Cons a as)
  from Cons.prems(2) obtain s1 where a: "step a s = Some s1" and r: "exec as s1 = Some s'"
    by (auto split: option.splits)
  from Cons.prems(3) have f: "forward a" and fs: "list_all forward as" by simp_all
  from Cons.prems(1) a f have "inv_sys s1" by (rule inv_sys_step)
  then show ?case using r fs by (rule Cons.IH)
qed

lemma idle_sys_inv: "idle_sys s \<Longrightarrow> 0 \<le> clock s \<Longrightarrow> inv_sys s"
  by (simp add: idle_sys_def inv_sys_def inv_locks_def inv_items_def inv_count_def)

text \<open>
  Claim C9, amended. Let the clock be at or after the epoch when no call is in progress,
  and let it never be set back afterwards. Then in every state the system of concurrent
  callers reaches, whatever the keys, the interleaving, the results of \<open>fetch\<close> and
  the calls of \<^verbatim>\<open>Del\<close>: the test of line 62 is false for every goroutine about to
  run it (on the path of a found item its mutex is held since the snapshot that failed
  the test of line 50; on the path of a miss the item is new and has \<open>expires = 0\<close>),
  so no goroutine is ever at the return of line 63; and every call of \<^verbatim>\<open>Get\<close> that
  has returned has made exactly one call of the sink's methods.
\<close>

theorem second_check_dead:
  assumes "idle_sys s0" and "0 \<le> clock s0"
    and "exec as s0 = Some s" and "list_all forward as"
  shows "(\<forall>t v. pcs s t = L62 v \<longrightarrow> \<not> UnixMilli (clock s) < expires (heap s v))
         \<and> (\<forall>t v. pcs s t \<noteq> L63 v)
         \<and> (\<forall>t va er. pcs s t = Returned va er \<longrightarrow> calls_of (tally s t) = 1)"
proof -
  have "inv_sys s" using idle_sys_inv[OF assms(1,2)] assms(3,4) by (rule inv_sys_exec)
  then have l: "inv_locks s" and i: "inv_items s" and c: "inv_count s"
    by (simp_all add: inv_sys_def)
  have "0 \<le> UnixMilli (clock s)" using inv_locksD(1)[OF l] by (rule UnixMilli_nonneg)
  then have a: "\<not> UnixMilli (clock s) < expires (heap s v)" if "pcs s t = L62 v" for t v
    using inv_itemsD(1)[OF i, of t] that by auto
  have b: "calls_of (tally s t) = 1" if "pcs s t = Returned va er" for t va er
  proof -
    have "accounted (pcs s t) (tally s t) (fetches s t)" using c by (simp add: inv_count_def)
    with that show ?thesis
      by (auto simp: calls_of_def no_calls_def IncrGetHit_def IncrGetSuccess_def IncrGetFailed_def)
  qed
  from a b c show ?thesis by (auto simp: inv_count_def)
qed

lemmas machine_defs = at_def sink_def no_calls_def shared_def ran_def race_start_def race_hit_def
  race_refetch_def calls_of_def idle_sys_def clock_back_def before_epoch_def

text \<open>
  Claim C9 as stated fails: lines 50 and 62 each read the wall clock. In the run
  \<open>clock_back\<close> goroutine 1 fails the test of line 50 at 100 ms, the clock is set
  back to 99 ms, the test of line 62 is true and the goroutine is at line 63; its next
  step returns the cached \<open>(7, nil)\<close>, and its call of \<^verbatim>\<open>Get\<close> has called no
  method of the sink and no \<open>fetch\<close>. In the run \<open>before_epoch\<close>, with the clock
  1 ns before the epoch, goroutine 0 misses, passes the test of line 62 on its new item
  (\<open>0 > -1\<close>) and returns the zero value with no call of its \<open>fetch\<close> and of the
  sink.
\<close>

theorem second_check_counterexample:
  "idle_sys (shared 2) \<and> clock (shared 2) = 0
   \<and> map_option (\<lambda>s. (pcs s 1, UnixMilli (clock s), expires (heap s 0)))
        (exec clock_back (shared 2)) = Some (L63 0, 99, 100)
   \<and> map_option (\<lambda>s. (pcs s 1, calls_of (tally s 1), fetches s 1, target s))
        (exec (clock_back @ [Step 1]) (shared 2))
       = Some (Returned 7 None, 0, 0, \<lparr>getHit = 0, getSuccess = 1, getFailed = 0\<rparr>)
   \<and> map_option (\<lambda>s. (pcs s 0, UnixMilli (clock s), expires (heap s 0)))
        (exec before_epoch (shared 2)) = Some (L63 0, - 1, 0)
   \<and> map_option (\<lambda>s. (pcs s 0, calls_of (tally s 0), fetched s))
        (exec (before_epoch @ [Step 0]) (shared 2)) = Some (Returned 0 None, 0, 0)"
  by (simp add: machine_defs eval_defs)

theorem second_check_dead_witness:
  "idle_sys (shared 2) \<and> 0 \<le> clock (shared 2) \<and> list_all forward race_hit
   \<and> exec race_hit (shared 2) = Some (ran race_hit (shared 2))
   \<and> pcs (ran race_hit (shared 2)) 0 = Returned 7 None
   \<and> tally (ran race_hit (shared 2)) 0 = \<lparr>getHit = 0, getSuccess = 1, getFailed = 0\<rparr>
   \<and> calls_of (tally (ran race_hit (shared 2)) 0) = 1
   \<and> pcs (ran race_hit (shared 2)) 1 = Returned 7 None
   \<and> tally (ran race_hit (shared 2)) 1 = \<lparr>getHit = 1, getSuccess = 0, getFailed = 0\<rparr>
   \<and> calls_of (tally (ran race_hit (shared 2)) 1) = 1"
proof -
  have i: "idle_sys (shared 2)" "0 \<le> clock (shared 2)" by (simp_all add: machine_defs)
  have f: "list_all forward race_hit" by (simp add: machine_defs)
  have e: "exec race_hit (shared 2) = Some (ran race_hit (shared 2))"
    by (simp add: machine_defs eval_defs)
  have p: "pcs (ran race_hit (shared 2)) 0 = Returned 7 None"
    "pcs (ran race_hit (shared 2)) 1 = Returned 7 None"
    "tally (ran race_hit (shared 2)) 0 = \<lparr>getHit = 0, getSuccess = 1, getFailed = 0\<rparr>"
    "tally (ran race_hit (shared 2)) 1 = \<lparr>getHit = 1, getSuccess = 0, getFailed = 0\<rparr>"
    by (simp_all add: machine_defs eval_defs)
  from second_check_dead[OF i e f] p(1,2)
  have "calls_of (tally (ran race_hit (shared 2)) 0) = 1"
    "calls_of (tally (ran race_hit (shared 2)) 1) = 1"
    by blast+
  with i f e p show ?thesis by simp
qed

section \<open>Callers racing for one key\<close>

lemma item_of_frame [simp]:
  "item_of (at t p s) k = item_of s k"
  "item_of (sink t f s) k = item_of s k"
  "item_of (set_lock v b s) k = item_of s k"
  "item_of (cb cs s) k = item_of s k"
  "item_of (s\<lparr>xlock := x\<rparr>) k = item_of s k"
  "item_of (s\<lparr>heap := h\<rparr>) k = item_of s k"
  "item_of (s\<lparr>fresh := n\<rparr>) k = item_of s k"
  "item_of (s\<lparr>fetched := m\<rparr>) k = item_of s k"
  "item_of (s\<lparr>target := c\<rparr>) k = item_of s k"
  "item_of (s\<lparr>clock := tm\<rparr>) k = item_of s k"
  "item_of (s\<lparr>tally := ta\<rparr>) k = item_of s k"
  "item_of (s\<lparr>fetches := fe\<rparr>) k = item_of s k"
  by (simp_all add: item_of_def at_def sink_def)









subsection \<open>The published pair\<close>







lemma race_at_cong:
  "heap s' = heap s \<Longrightarrow> item_of s' k = item_of s k \<Longrightarrow> race_at k B c0 s' q = race_at k B c0 s q"
  by (cases q) (auto simp: served_def)




subsection \<open>The counts of the race\<close>








subsection \<open>Runs of the race\<close>

lemma race_at_clock [simp]: "race_at k B c0 (s\<lparr>clock := c\<rparr>) q = race_at k B c0 s q"
  by (cases q) (simp_all add: served_def)










section \<open>Single flight\<close>













end
